theory Spec2Isabelle
  imports Main "HOL-Library.Option_ord" "HOL-Library.Product_Lexorder" "HOL-Library.Multiset"
begin

section \<open>Data model\<close>

text \<open>
  A row of the table \<^verbatim>\<open>nodes\<close> (schema.sql): \<^verbatim>\<open>id INTEGER PRIMARY KEY AUTOINCREMENT\<close>,
  \<^verbatim>\<open>label TEXT NOT NULL\<close>, \<^verbatim>\<open>parent_id INTEGER\<close> (nullable). The column
  \<^verbatim>\<open>created_at\<close> is read by no function and is left out. A label is a list of
  characters, one per code unit.
\<close>

record node =
  node_id :: int
  label :: string
  parent_id :: "int option"

text \<open>
  The table: its rows, and the counter that SQLite keeps for an AUTOINCREMENT key (the
  largest row id ever handed out). The foreign key of schema.sql is not enforced, since
  connection.js never switches \<^verbatim>\<open>PRAGMA foreign_keys\<close> on.
\<close>

record store =
  rows :: "node list"
  sqlite_sequence :: int

text \<open>Every throw site of queries.js and treeService.js that the model reaches.\<close>

datatype error =
    LabelRequired
  | LabelBlank
  | LabelTooLong
  | ParentIdNotPositive
  | ParentDoesNotExist int
  | SourceNotFound int
  | OwnChild
  | OwnDescendant
  | AlreadyChild
  | TypeError
  | RangeError
  | FailedToCreateNode error
  | FailedToMove error
  | FailedToGetTree error

section \<open>queries.js\<close>

text \<open>\<^verbatim>\<open>SELECT ... WHERE id = ?\<close>, the row or null.\<close>

definition getNodeById :: "store \<Rightarrow> int \<Rightarrow> node option" where
  "getNodeById s i = find (\<lambda>n. node_id n = i) (rows s)"

text \<open>\<^verbatim>\<open>ORDER BY parent_id, id\<close>: SQLite puts NULL first.\<close>

definition getAllNodes :: "store \<Rightarrow> node list" where
  "getAllNodes s = sort_key (\<lambda>n. (parent_id n, node_id n)) (rows s)"

text \<open>\<^verbatim>\<open>WHERE parent_id = ? ORDER BY id\<close>.\<close>

definition getChildrenByParentId :: "store \<Rightarrow> int \<Rightarrow> node list" where
  "getChildrenByParentId s p =
     sort_key node_id (filter (\<lambda>n. parent_id n = Some p) (rows s))"

definition nodeExists :: "store \<Rightarrow> int \<Rightarrow> bool" where
  "nodeExists s i = (length (filter (\<lambda>n. node_id n = i) (rows s)) > 0)"

definition getNodeCount :: "store \<Rightarrow> nat" where
  "getNodeCount s = length (rows s)"

text \<open>
  \<^verbatim>\<open>INSERT INTO nodes (label, parent_id) VALUES (?, ?)\<close> on an AUTOINCREMENT key: the
  new id is one more than the largest id in the table and the counter, and the counter
  follows. The result is the store and \<^verbatim>\<open>lastID\<close>.
\<close>

definition insert_row :: "store \<Rightarrow> string \<Rightarrow> int option \<Rightarrow> store \<times> int" where
  "insert_row s l p =
     (let i = fold max (map node_id (rows s)) (sqlite_sequence s) + 1
      in (\<lparr>rows = rows s @ [\<lparr>node_id = i, label = l, parent_id = p\<rparr>],
           sqlite_sequence = i\<rparr>, i))"

text \<open>
  queries.js, createNode: the parent is looked up first; a missing parent throws before
  the INSERT. The result pairs what the call returns (or throws) with the store after it.
\<close>

definition createNode :: "store \<Rightarrow> string \<Rightarrow> int option \<Rightarrow> (error + node option) \<times> store" where
  "createNode s l parentId =
     (if (case parentId of None \<Rightarrow> False | Some p \<Rightarrow> \<not> nodeExists s p)
      then (Inl (ParentDoesNotExist (the parentId)), s)
      else (let (s', i) = insert_row s l parentId in (Inr (getNodeById s' i), s')))"

text \<open>
  queries.js, getAncestors: the loop has no bound; it ends at a node without parent or
  at a parent that is not in the table. A walk that never ends is the value None.
\<close>

partial_function (option) getAncestors_loop :: "store \<Rightarrow> node option \<Rightarrow> node list \<Rightarrow> node list option" where
  [code]: "getAncestors_loop s currentNode ancestors =
     (case currentNode of
        None \<Rightarrow> Some ancestors
      | Some cur \<Rightarrow>
          (case parent_id cur of
             None \<Rightarrow> Some ancestors
           | Some p \<Rightarrow>
               (case getNodeById s p of
                  Some parent \<Rightarrow> getAncestors_loop s (Some parent) (ancestors @ [parent])
                | None \<Rightarrow> Some ancestors)))"

definition getAncestors :: "store \<Rightarrow> int \<Rightarrow> node list option" where
  "getAncestors s nodeId = getAncestors_loop s (getNodeById s nodeId) []"

text \<open>
  queries.js, getAncestorIds: the same walk on ids, cut off after maxDepth rounds.
  The loop condition \<^verbatim>\<open>currentNodeId && depth < maxDepth\<close> is false on the id 0.
\<close>

definition maxDepth :: nat where
  "maxDepth = 1000"

function getAncestorIds_loop :: "store \<Rightarrow> int \<Rightarrow> nat \<Rightarrow> int list \<Rightarrow> int list" where
  "getAncestorIds_loop s currentNodeId depth ancestorIds =
     (if currentNodeId \<noteq> 0 \<and> depth < maxDepth then
        (case getNodeById s currentNodeId of
           None \<Rightarrow> ancestorIds
         | Some n \<Rightarrow>
             (case parent_id n of
                None \<Rightarrow> ancestorIds
              | Some p \<Rightarrow> getAncestorIds_loop s p (depth + 1) (ancestorIds @ [p])))
      else ancestorIds)"
  by pat_completeness auto
termination
  by (relation "measure (\<lambda>(s, c, depth, a). maxDepth - depth)") auto

declare getAncestorIds_loop.simps [simp del]

definition getAncestorIds :: "store \<Rightarrow> int \<Rightarrow> int list" where
  "getAncestorIds s nodeId = getAncestorIds_loop s nodeId 0 []"

definition isAncestor :: "store \<Rightarrow> int \<Rightarrow> int \<Rightarrow> bool" where
  "isAncestor s potentialAncestorId nodeId =
     (if potentialAncestorId = nodeId then True
      else potentialAncestorId \<in> set (getAncestorIds s nodeId))"

definition getNodeDepth :: "store \<Rightarrow> int \<Rightarrow> nat option" where
  "getNodeDepth s nodeId = map_option length (getAncestors s nodeId)"

text \<open>
  queries.js, getAllDescendants: each child, then the child's own descendants, with no
  bound on the recursion. The \<^verbatim>\<open>for\<close> loop over the children is the recursion on
  the list; the call on a child is the inner call.
\<close>

partial_function (option) getAllDescendants_loop :: "store \<Rightarrow> node list \<Rightarrow> node list option" where
  [code]: "getAllDescendants_loop s children =
     (case children of
        [] \<Rightarrow> Some []
      | child # rest \<Rightarrow>
          Option.bind (getAllDescendants_loop s (getChildrenByParentId s (node_id child)))
            (\<lambda>childDescendants.
               Option.bind (getAllDescendants_loop s rest)
                 (\<lambda>more. Some (child # childDescendants @ more))))"

definition getAllDescendants :: "store \<Rightarrow> int \<Rightarrow> node list option" where
  "getAllDescendants s nodeId = getAllDescendants_loop s (getChildrenByParentId s nodeId)"

definition getSubtreeSize :: "store \<Rightarrow> int \<Rightarrow> nat option" where
  "getSubtreeSize s nodeId = map_option length (getAllDescendants s nodeId)"

text \<open>\<^verbatim>\<open>UPDATE nodes SET parent_id = ? WHERE id = ?\<close>.\<close>

definition update_parent :: "store \<Rightarrow> int \<Rightarrow> int option \<Rightarrow> store" where
  "update_parent s i p =
     s\<lparr>rows := map (\<lambda>n. if node_id n = i then n\<lparr>parent_id := p\<rparr> else n) (rows s)\<rparr>"

text \<open>
  queries.js, moveNodeAndSubtree. The first loop fills parentIdMap: a descendant whose
  old parent is a key of the map gets that key's value. The second loop writes one
  UPDATE for the source and one for every descendant that is a key of the map. A throw
  rolls the transaction back, so the store is the one the call started with.
\<close>

definition build_parentIdMap :: "int \<Rightarrow> int option \<Rightarrow> node list \<Rightarrow> (int \<rightharpoonup> int option)" where
  "build_parentIdMap sourceNodeId newParentId descendants =
     fold (\<lambda>d m. case parent_id d of
                    None \<Rightarrow> m
                  | Some oldParentId \<Rightarrow>
                      (case m oldParentId of
                         None \<Rightarrow> m
                       | Some v \<Rightarrow> m(node_id d \<mapsto> v)))
          descendants [sourceNodeId \<mapsto> newParentId]"

definition apply_updates :: "(int \<rightharpoonup> int option) \<Rightarrow> node list \<Rightarrow> store \<Rightarrow> store" where
  "apply_updates m descendants s =
     fold (\<lambda>d s'. case m (node_id d) of
                     None \<Rightarrow> s'
                   | Some newParentIdForDescendant \<Rightarrow>
                       update_parent s' (node_id d) newParentIdForDescendant)
          descendants s"

definition q_moveNodeAndSubtree ::
  "store \<Rightarrow> int \<Rightarrow> int option \<Rightarrow> ((error + node option) \<times> store) option" where
  "q_moveNodeAndSubtree s sourceNodeId newParentId =
     (case getNodeById s sourceNodeId of
        None \<Rightarrow> Some (Inl (FailedToMove (SourceNotFound sourceNodeId)), s)
      | Some sourceNode \<Rightarrow>
          (case getAllDescendants s sourceNodeId of
             None \<Rightarrow> None
           | Some descendants \<Rightarrow>
               (let m = build_parentIdMap sourceNodeId newParentId descendants;
                    s1 = update_parent s sourceNodeId newParentId;
                    s2 = apply_updates m descendants s1
                in Some (Inr (getNodeById s2 sourceNodeId), s2))))"

section \<open>treeService.js\<close>

text \<open>
  validateNodeInput. \<^verbatim>\<open>label.trim()\<close> is empty when every character is white space;
  of JavaScript's white space the characters below fit a \<^typ>\<open>char\<close>.
\<close>

definition is_space :: "char \<Rightarrow> bool" where
  "is_space c = (of_char c \<in> {9, 10, 11, 12, 13, 32, 160 :: nat})"

definition validateNodeInput :: "string \<Rightarrow> int option \<Rightarrow> error option" where
  "validateNodeInput l parentId =
     (if l = [] then Some LabelRequired
      else if list_all is_space l then Some LabelBlank
      else if length l > 255 then Some LabelTooLong
      else (case parentId of
              None \<Rightarrow> None
            | Some p \<Rightarrow> if p \<le> 0 then Some ParentIdNotPositive else None))"

text \<open>The object \<^verbatim>\<open>{id, label, children}\<close> that the service hands out.\<close>

datatype TreeNode = TreeNode (tn_id: int) (tn_label: string) (tn_children: "TreeNode list")

text \<open>
  treeService.js, createNode: the input is checked outside the \<^verbatim>\<open>try\<close>, the query
  inside it. Reading \<^verbatim>\<open>newNode.id\<close> of a null result would be a TypeError.
\<close>

definition svc_createNode :: "store \<Rightarrow> string \<Rightarrow> int option \<Rightarrow> (error + TreeNode) \<times> store" where
  "svc_createNode s l parentId =
     (case validateNodeInput l parentId of
        Some e \<Rightarrow> (Inl e, s)
      | None \<Rightarrow>
          (case createNode s l parentId of
             (Inl e, s') \<Rightarrow> (Inl (FailedToCreateNode e), s')
           | (Inr None, s') \<Rightarrow> (Inl (FailedToCreateNode TypeError), s')
           | (Inr (Some newNode), s') \<Rightarrow> (Inr (TreeNode (node_id newNode) (label newNode) []), s')))"

text \<open>
  treeService.js, getPathToNode: the walk from the node to the root, each step put at
  the front of the path. \<^verbatim>\<open>if (currentNode.parent_id)\<close> is false on null and on 0.
  The loop has no bound.
\<close>

partial_function (option) getPathToNode_loop ::
  "store \<Rightarrow> node option \<Rightarrow> (int \<times> string) list \<Rightarrow> (int \<times> string) list option" where
  [code]: "getPathToNode_loop s currentNode path =
     (case currentNode of
        None \<Rightarrow> Some path
      | Some cur \<Rightarrow>
          (let path' = (node_id cur, label cur) # path in
           case parent_id cur of
             None \<Rightarrow> Some path'
           | Some p \<Rightarrow>
               if p \<noteq> 0 then getPathToNode_loop s (getNodeById s p) path'
               else Some path'))"

definition getPathToNode :: "store \<Rightarrow> int \<Rightarrow> (int \<times> string) list option" where
  "getPathToNode s nodeId = getPathToNode_loop s (getNodeById s nodeId) []"

text \<open>
  treeService.js, moveNodeAndSubtree. The source node is fetched and not checked; it is
  first read at \<^verbatim>\<open>sourceNode.parent_id\<close>, after the two checks on newParentId. Every
  throw is caught and thrown again with a prefix (queries.js adds its own as well).
\<close>

definition svc_moveNodeAndSubtree ::
  "store \<Rightarrow> int \<Rightarrow> int option \<Rightarrow> ((error + node option) \<times> store) option" where
  "svc_moveNodeAndSubtree s sourceNodeId newParentId =
     (let sourceNode = getNodeById s sourceNodeId in
      if newParentId = Some sourceNodeId then Some (Inl (FailedToMove OwnChild), s)
      else
        (case (case newParentId of
                 None \<Rightarrow> Some False
               | Some np \<Rightarrow>
                   map_option (\<lambda>descendants. np \<in> set (map node_id descendants))
                     (getAllDescendants s sourceNodeId)) of
           None \<Rightarrow> None
         | Some True \<Rightarrow> Some (Inl (FailedToMove OwnDescendant), s)
         | Some False \<Rightarrow>
             (case sourceNode of
                None \<Rightarrow> Some (Inl (FailedToMove TypeError), s)
              | Some src \<Rightarrow>
                  if parent_id src = newParentId then Some (Inl (FailedToMove AlreadyChild), s)
                  else
                    (case q_moveNodeAndSubtree s sourceNodeId newParentId of
                       None \<Rightarrow> None
                     | Some (Inl e, s') \<Rightarrow> Some (Inl (FailedToMove e), s')
                     | Some (Inr movedNode, s') \<Rightarrow> Some (Inr movedNode, s')))))"

text \<open>
  treeService.js, buildHierarchy. The objects \<^verbatim>\<open>{id, label, children}\<close> are created
  once, as the values of nodeMap, and are shared from then on: \<^verbatim>\<open>trees\<close> and every
  \<^verbatim>\<open>children\<close> array hold references to them. An object of nodeMap is found under
  its own id, so the id stands for the reference, and the heap of objects is nodeMap.
\<close>

record tree_obj =
  obj_label :: string
  obj_children :: "int list"

type_synonym heap = "int \<rightharpoonup> tree_obj"

text \<open>First pass: \<^verbatim>\<open>nodeMap.set(node.id, {id, label, children: []})\<close>.\<close>

definition make_nodeMap :: "node list \<Rightarrow> heap" where
  "make_nodeMap nodes =
     fold (\<lambda>n m. m(node_id n \<mapsto> \<lparr>obj_label = label n, obj_children = []\<rparr>)) nodes Map.empty"

text \<open>
  Second pass, one round: a node whose parent_id is rootParentId is pushed on
  \<^verbatim>\<open>trees\<close>; otherwise, when nodeMap has its parent, it is pushed on the parent's
  children; otherwise nothing happens.
\<close>

definition attach :: "int option \<Rightarrow> node \<Rightarrow> heap \<times> int list \<Rightarrow> heap \<times> int list" where
  "attach rootParentId n st =
     (let (m, trees) = st in
      if parent_id n = rootParentId then (m, trees @ [node_id n])
      else
        (case parent_id n of
           None \<Rightarrow> (m, trees)
         | Some p \<Rightarrow>
             (case m p of
                None \<Rightarrow> (m, trees)
              | Some parent \<Rightarrow>
                  (m(p \<mapsto> parent\<lparr>obj_children := obj_children parent @ [node_id n]\<rparr>), trees))))"

text \<open>
  sortChildrenRecursively: for each object of the list that has children, the children
  array is sorted in place by id, then the function calls itself on it, inside the
  \<^verbatim>\<open>forEach\<close>: one nested call for each level of the tree, none of them awaited.
  The first argument is the number of nested calls the stack still takes; a call beyond
  it throws a RangeError (the value None). An object that is its own descendant nests
  without end and runs out of every stack.
\<close>

fun sortChildrenRecursively :: "nat \<Rightarrow> heap \<Rightarrow> int list \<Rightarrow> heap option" where
  "sortChildrenRecursively k h [] = Some h"
| "sortChildrenRecursively k h (i # rest) =
     (case h i of
        None \<Rightarrow> sortChildrenRecursively k h rest
      | Some obj \<Rightarrow>
          if obj_children obj = [] then sortChildrenRecursively k h rest
          else
            (case k of
               0 \<Rightarrow> None
             | Suc k' \<Rightarrow>
                 (let cs = sort (obj_children obj) in
                  case sortChildrenRecursively k' (h(i \<mapsto> obj\<lparr>obj_children := cs\<rparr>)) cs of
                    None \<Rightarrow> None
                  | Some h' \<Rightarrow> sortChildrenRecursively k h' rest)))"

text \<open>
  What a reference stands for once the function has returned: the object with the
  values of its children in their place, read to a depth of k levels.
\<close>

fun materialize :: "nat \<Rightarrow> heap \<Rightarrow> int \<Rightarrow> TreeNode option" where
  "materialize 0 h i =
     (case h i of
        None \<Rightarrow> None
      | Some obj \<Rightarrow> if obj_children obj = [] then Some (TreeNode i (obj_label obj) []) else None)"
| "materialize (Suc k) h i =
     (case h i of
        None \<Rightarrow> None
      | Some obj \<Rightarrow>
          map_option (TreeNode i (obj_label obj)) (those (map (materialize k h) (obj_children obj))))"

text \<open>
  buildHierarchy, on a stack that takes k nested calls of sortChildrenRecursively. The
  RangeError of the sorting pass is not caught here. The forest is read to the same
  depth k: where the sorting pass has returned, no object lies deeper.
\<close>

definition buildHierarchy :: "nat \<Rightarrow> node list \<Rightarrow> int option \<Rightarrow> TreeNode list option" where
  "buildHierarchy k nodes rootParentId =
     (if nodes = [] then Some []
      else
        (let (nodeMap, trees) = fold (attach rootParentId) nodes (make_nodeMap nodes, []) in
         case sortChildrenRecursively k nodeMap trees of
           None \<Rightarrow> None
         | Some h \<Rightarrow> those (map (materialize k h) trees)))"

fun countNodesInTree :: "TreeNode \<Rightarrow> nat" where
  "countNodesInTree (TreeNode i l cs) = 1 + sum_list (map countNodesInTree cs)"

text \<open>
  getAllTrees and getTreeByRootId, on a stack that takes k nested calls; a throw inside
  the \<^verbatim>\<open>try\<close> comes back with a prefix.
\<close>

definition getAllTrees :: "nat \<Rightarrow> store \<Rightarrow> error + TreeNode list" where
  "getAllTrees k s =
     (case buildHierarchy k (getAllNodes s) None of
        None \<Rightarrow> Inl (FailedToGetTree RangeError)
      | Some trees \<Rightarrow> Inr trees)"

definition getTreeByRootId :: "nat \<Rightarrow> store \<Rightarrow> int \<Rightarrow> (error + TreeNode option) option" where
  "getTreeByRootId k s rootId =
     (case getNodeById s rootId of
        None \<Rightarrow> Some (Inr None)
      | Some rootNode \<Rightarrow>
          (case getAllDescendants s rootId of
             None \<Rightarrow> None
           | Some descendants \<Rightarrow>
               (case buildHierarchy k (rootNode # descendants) None of
                  None \<Rightarrow> Some (Inl (FailedToGetTree RangeError))
                | Some trees \<Rightarrow> Some (Inr (case trees of [] \<Rightarrow> None | t # _ \<Rightarrow> Some t)))))"

text \<open>
  validateTreeStructure. An issue is kept as its type and node id. The
  \<^verbatim>\<open>traversal_error\<close> branch is the \<^verbatim>\<open>catch\<close> around getAncestorIds, which throws
  only when the database does; the walk itself never throws.
\<close>

datatype issue_type = orphaned_node | circular_reference | traversal_error

record validation =
  isValid :: bool
  issues :: "(issue_type \<times> int) list"
  totalNodes :: nat
  rootNodes :: nat

definition node_issues :: "store \<Rightarrow> (int \<rightharpoonup> node) \<Rightarrow> node \<Rightarrow> (issue_type \<times> int) list" where
  "node_issues s nodeMap n =
     (case parent_id n of
        None \<Rightarrow> []
      | Some p \<Rightarrow>
          (if nodeMap p = None then [(orphaned_node, node_id n)] else []) @
          (if node_id n \<in> set (getAncestorIds s (node_id n))
           then [(circular_reference, node_id n)] else []))"

definition validateTreeStructure :: "store \<Rightarrow> node list option \<Rightarrow> validation" where
  "validateTreeStructure s nodesArg =
     (let nodes = (case nodesArg of None \<Rightarrow> getAllNodes s | Some ns \<Rightarrow> ns);
          nodeMap = fold (\<lambda>n m. m(node_id n \<mapsto> n)) nodes Map.empty;
          found = concat (map (node_issues s nodeMap) nodes)
      in \<lparr>isValid = (length found = 0),
          issues = found,
          totalNodes = length nodes,
          rootNodes = length (filter (\<lambda>n. parent_id n = None) nodes)\<rparr>)"

section \<open>Well-formed stores\<close>

text \<open>The parent pointers of a list of rows, as pairs of a row's id and its parent_id.\<close>

definition parent_rel :: "node list \<Rightarrow> (int \<times> int) set" where
  "parent_rel ns =
     set (concat (map (\<lambda>n. case parent_id n of None \<Rightarrow> [] | Some p \<Rightarrow> [(node_id n, p)]) ns))"

text \<open>
  The stores reached from an empty table by creates alone, through the query or through
  the service. The id counter of an empty table is any number from 0 on (clearAllNodes
  empties the table and leaves the counter).
\<close>

inductive created :: "store \<Rightarrow> bool" where
  created_empty: "0 \<le> k \<Longrightarrow> created \<lparr>rows = [], sqlite_sequence = k\<rparr>"
| created_query: "created s \<Longrightarrow> created (snd (createNode s l p))"
| created_service: "created s \<Longrightarrow> created (snd (svc_createNode s l p))"

text \<open>What creates maintain: ids are positive, and a parent is a row with a smaller id.\<close>

definition parents_older :: "store \<Rightarrow> bool" where
  "parents_older s \<longleftrightarrow>
     0 \<le> sqlite_sequence s \<and>
     (\<forall>n\<in>set (rows s). 0 < node_id n \<and>
        (\<forall>p. parent_id n = Some p \<longrightarrow> p < node_id n \<and> (\<exists>m\<in>set (rows s). node_id m = p)))"

section \<open>Notions for the hierarchy\<close>

text \<open>
  The ids that the second pass of buildHierarchy pushes on the children of object i, in
  the order of the input: the nodes that are not roots and whose parent_id is i.
\<close>

definition kids :: "int option \<Rightarrow> node list \<Rightarrow> int \<Rightarrow> int list" where
  "kids r ns i = map node_id (filter (\<lambda>n. parent_id n \<noteq> r \<and> parent_id n = Some i) ns)"

text \<open>The heap with every children array sorted.\<close>

definition sort_all :: "heap \<Rightarrow> heap" where
  "sort_all h = (\<lambda>i. map_option (\<lambda>obj. obj\<lparr>obj_children := sort (obj_children obj)\<rparr>) (h i))"

text \<open>The heap that buildHierarchy ends with, every children array sorted.\<close>

definition hier_heap :: "node list \<Rightarrow> int option \<Rightarrow> heap" where
  "hier_heap ns r = sort_all (fst (fold (attach r) ns (make_nodeMap ns, [])))"

text \<open>A later heap of the sorting pass: each object is as before or has its children sorted.\<close>

definition sorted_more :: "heap \<Rightarrow> heap \<Rightarrow> bool" where
  "sorted_more h h' \<longleftrightarrow> (\<forall>i. h' i = h i \<or> h' i = sort_all h i)"

text \<open>The children arrays are sorted from object i down to a depth of k levels.\<close>

fun sorted_below :: "nat \<Rightarrow> heap \<Rightarrow> int \<Rightarrow> bool" where
  "sorted_below 0 h i = True"
| "sorted_below (Suc k) h i =
     (case h i of
        None \<Rightarrow> True
      | Some obj \<Rightarrow> sorted (obj_children obj) \<and> (\<forall>c\<in>set (obj_children obj). sorted_below k h c))"

text \<open>A tree whose children arrays ascend by id at every level.\<close>

fun ascending :: "TreeNode \<Rightarrow> bool" where
  "ascending (TreeNode i l cs) = (sorted (map tn_id cs) \<and> (\<forall>c\<in>set cs. ascending c))"

text \<open>
  The pairs of a node that is not a root and its parent_id: the second pass pushes on
  children arrays along these.
\<close>

definition attached :: "node list \<Rightarrow> int option \<Rightarrow> (int \<times> int) set" where
  "attached ns r = parent_rel (filter (\<lambda>n. parent_id n \<noteq> r) ns)"

text \<open>
  The nesting condition: no node lies more than k parent links below a root, so that
  sorting the forest nests k calls at most.
\<close>

definition nests_within :: "nat \<Rightarrow> node list \<Rightarrow> int option \<Rightarrow> bool" where
  "nests_within k ns r \<longleftrightarrow>
     \<not> (\<exists>n\<in>set ns. parent_id n = r \<and> (\<exists>x. (x, node_id n) \<in> attached ns r ^^ Suc k))"

text \<open>Every parent_id of the list that is not null is the id of a node of the list.\<close>

definition parents_present :: "node list \<Rightarrow> bool" where
  "parents_present ns \<longleftrightarrow>
     list_all (\<lambda>n. case parent_id n of None \<Rightarrow> True | Some p \<Rightarrow> p \<in> node_id ` set ns) ns"

text \<open>The ids below i along the parent pointers, i included.\<close>

definition below :: "node list \<Rightarrow> int \<Rightarrow> int set" where
  "below ns i = {x. (x, i) \<in> (parent_rel ns)\<^sup>*}"

section \<open>Stores of the scenarios\<close>

definition empty_store :: store where
  "empty_store = \<lparr>rows = [], sqlite_sequence = 0\<rparr>"

text \<open>The four nodes of the end-to-end scenarios: root, bear under root, cat under bear, frog under root.\<close>

definition zoo :: store where
  "zoo = \<lparr>rows = [\<lparr>node_id = 1, label = ''root'', parent_id = None\<rparr>,
                  \<lparr>node_id = 2, label = ''bear'', parent_id = Some 1\<rparr>,
                  \<lparr>node_id = 3, label = ''cat'', parent_id = Some 2\<rparr>,
                  \<lparr>node_id = 4, label = ''frog'', parent_id = Some 1\<rparr>],
          sqlite_sequence = 4\<rparr>"

text \<open>
  A table whose only row is its own parent. updateMultipleNodes of queries.js writes such
  a row: it checks that the new parent exists and nothing else.
\<close>

definition looped :: store where
  "looped = \<lparr>rows = [\<lparr>node_id = 1, label = ''a'', parent_id = Some 1\<rparr>], sqlite_sequence = 1\<rparr>"

section \<open>Creating nodes\<close>

lemma fold_max_ge_init: "(a::int) \<le> fold max xs a"
  by (induction xs arbitrary: a) (auto intro: order_trans[OF max.cobounded2])

lemma fold_max_ge_elem: "x \<in> set xs \<Longrightarrow> (x::int) \<le> fold max xs a"
proof (induction xs arbitrary: a)
  case Nil
  then show ?case by simp
next
  case (Cons y ys)
  show ?case
  proof (cases "x = y")
    case True
    have "y \<le> max y a" by simp
    also have "\<dots> \<le> fold max ys (max y a)" by (rule fold_max_ge_init)
    finally show ?thesis using True by simp
  next
    case False
    with Cons show ?thesis by simp
  qed
qed

lemma getNodeById_fresh:
  "\<forall>n\<in>set xs. node_id n \<noteq> i \<Longrightarrow>
   getNodeById \<lparr>rows = xs @ ys, sqlite_sequence = q\<rparr> i = find (\<lambda>n. node_id n = i) ys"
  by (induction xs) (auto simp: getNodeById_def)

text \<open>A create that returns has appended one row under an id above every id in use.\<close>

lemma createNode_Inr:
  assumes "createNode s l p = (Inr r, s')"
  shows "\<exists>i. s' = \<lparr>rows = rows s @ [\<lparr>node_id = i, label = l, parent_id = p\<rparr>], sqlite_sequence = i\<rparr>
           \<and> r = Some \<lparr>node_id = i, label = l, parent_id = p\<rparr>
           \<and> sqlite_sequence s < i \<and> (\<forall>n\<in>set (rows s). node_id n < i)"
proof -
  define i where "i = fold max (map node_id (rows s)) (sqlite_sequence s) + 1"
  have lt: "sqlite_sequence s < i"
    using fold_max_ge_init[of "sqlite_sequence s" "map node_id (rows s)"] by (simp add: i_def)
  have fresh: "\<forall>n\<in>set (rows s). node_id n < i"
  proof
    fix n assume "n \<in> set (rows s)"
    then have "node_id n \<in> set (map node_id (rows s))" by simp
    from fold_max_ge_elem[OF this, of "sqlite_sequence s"] show "node_id n < i" by (simp add: i_def)
  qed
  then have ne: "\<forall>n\<in>set (rows s). node_id n \<noteq> i" by auto
  from assms have s': "s' = \<lparr>rows = rows s @ [\<lparr>node_id = i, label = l, parent_id = p\<rparr>], sqlite_sequence = i\<rparr>"
    and r: "r = getNodeById s' i"
    by (auto simp: createNode_def insert_row_def Let_def i_def split: if_splits)
  from r have "r = Some \<lparr>node_id = i, label = l, parent_id = p\<rparr>"
    unfolding s' by (simp add: getNodeById_fresh[OF ne])
  with s' lt fresh show ?thesis by blast
qed

lemma createNode_Inl:
  "createNode s l p = (Inl e, s') \<Longrightarrow>
   s' = s \<and> (\<exists>q. p = Some q \<and> \<not> nodeExists s q \<and> e = ParentDoesNotExist q)"
  by (auto simp: createNode_def insert_row_def Let_def split: if_splits option.splits)

lemma zoo_created:
  "zoo = snd (svc_createNode (snd (svc_createNode (snd (svc_createNode (snd (svc_createNode
           empty_store ''root'' None)) ''bear'' (Some 1))) ''cat'' (Some 2))) ''frog'' (Some 1))"
  by code_simp

text \<open>
  C6: a create with a well-formed label and a parent id that no row has fails with the
  parent-does-not-exist error, in the service and in the query layer, and leaves the
  store as it was; the row count is the one before the call.
\<close>

theorem create_missing_parent:
  assumes "validateNodeInput l (Some p) = None" and "\<not> nodeExists s p"
  shows "svc_createNode s l (Some p) = (Inl (FailedToCreateNode (ParentDoesNotExist p)), s)
       \<and> createNode s l (Some p) = (Inl (ParentDoesNotExist p), s)
       \<and> getNodeCount (snd (svc_createNode s l (Some p))) = getNodeCount s"
  using assms by (simp add: svc_createNode_def createNode_def)

theorem create_missing_parent_witness:
  "svc_createNode empty_store ''bear'' (Some 999) =
     (Inl (FailedToCreateNode (ParentDoesNotExist 999)), empty_store)
   \<and> createNode empty_store ''bear'' (Some 999) = (Inl (ParentDoesNotExist 999), empty_store)
   \<and> getNodeCount (snd (svc_createNode empty_store ''bear'' (Some 999))) = 0"
proof -
  have v: "validateNodeInput ''bear'' (Some 999) = None"
    by (simp add: validateNodeInput_def is_space_def)
  have e: "\<not> nodeExists empty_store 999" by (simp add: nodeExists_def empty_store_def)
  have c: "getNodeCount empty_store = 0" by (simp add: getNodeCount_def empty_store_def)
  from create_missing_parent[OF v e] c show ?thesis by simp
qed

section \<open>Ancestors and paths\<close>

text \<open>
  C9: after three creates that return root, child under root and grandchild under child,
  in a store whose id counter is not negative, getAncestors of the grandchild is
  [child, root] and getPathToNode of the grandchild is root, child, grandchild.
\<close>

theorem chain_ancestors_path:
  assumes seq: "0 \<le> sqlite_sequence s"
    and c1: "createNode s a None = (Inr (Some root), s1)"
    and c2: "createNode s1 b (Some (node_id root)) = (Inr (Some child), s2)"
    and c3: "createNode s2 c (Some (node_id child)) = (Inr (Some grandchild), s3)"
  shows "getAncestors s3 (node_id grandchild) = Some [child, root]
       \<and> getPathToNode s3 (node_id grandchild) =
           Some [(node_id root, label root), (node_id child, label child),
                 (node_id grandchild, label grandchild)]"
proof -
  from createNode_Inr[OF c1] obtain i1 where
    s1: "s1 = \<lparr>rows = rows s @ [\<lparr>node_id = i1, label = a, parent_id = None\<rparr>], sqlite_sequence = i1\<rparr>"
    and root: "root = \<lparr>node_id = i1, label = a, parent_id = None\<rparr>"
    and i1: "sqlite_sequence s < i1" and f1: "\<forall>n\<in>set (rows s). node_id n < i1" by auto
  from createNode_Inr[OF c2] obtain i2 where
    s2: "s2 = \<lparr>rows = rows s1 @ [\<lparr>node_id = i2, label = b, parent_id = Some (node_id root)\<rparr>],
               sqlite_sequence = i2\<rparr>"
    and child: "child = \<lparr>node_id = i2, label = b, parent_id = Some (node_id root)\<rparr>"
    and f2: "\<forall>n\<in>set (rows s1). node_id n < i2" by auto
  from createNode_Inr[OF c3] obtain i3 where
    s3: "s3 = \<lparr>rows = rows s2 @ [\<lparr>node_id = i3, label = c, parent_id = Some (node_id child)\<rparr>],
               sqlite_sequence = i3\<rparr>"
    and grandchild: "grandchild = \<lparr>node_id = i3, label = c, parent_id = Some (node_id child)\<rparr>"
    and f3: "\<forall>n\<in>set (rows s2). node_id n < i3" by auto
  have pos: "0 < i1" using seq i1 by simp
  have lt12: "i1 < i2" using f2 by (simp add: s1)
  have lt23: "i2 < i3" using f3 by (simp add: s2)
  have rows3: "s3 = \<lparr>rows = rows s @ [root, child, grandchild], sqlite_sequence = i3\<rparr>"
    by (simp add: s3 s2 s1 root child grandchild)
  have n1: "\<forall>n\<in>set (rows s). node_id n \<noteq> i1" using f1 by auto
  have n2: "\<forall>n\<in>set (rows s). node_id n \<noteq> i2" using f1 lt12 by auto
  have n3: "\<forall>n\<in>set (rows s). node_id n \<noteq> i3" using f1 lt12 lt23 by auto
  have g1: "getNodeById s3 i1 = Some root"
    unfolding rows3 getNodeById_fresh[OF n1] by (simp add: root)
  have g2: "getNodeById s3 i2 = Some child"
    unfolding rows3 getNodeById_fresh[OF n2] using lt12 by (simp add: root child)
  have g3: "getNodeById s3 i3 = Some grandchild"
    unfolding rows3 getNodeById_fresh[OF n3] using lt12 lt23 by (simp add: root child grandchild)
  have ids: "node_id root = i1" "node_id child = i2" "node_id grandchild = i3"
    and ps: "parent_id root = None" "parent_id child = Some i1" "parent_id grandchild = Some i2"
    by (simp_all add: root child grandchild)
  have A: "getAncestors s3 (node_id grandchild) = Some [child, root]"
    unfolding getAncestors_def ids g3
    by (simp add: getAncestors_loop.simps[of s3 "Some grandchild"]
          getAncestors_loop.simps[of s3 "Some child"]
          getAncestors_loop.simps[of s3 "Some root"] ps g1 g2)
  have nz: "i1 \<noteq> 0" "i2 \<noteq> 0" using pos lt12 by auto
  have P: "getPathToNode s3 (node_id grandchild) =
           Some [(node_id root, label root), (node_id child, label child),
                 (node_id grandchild, label grandchild)]"
    unfolding getPathToNode_def ids g3
    by (simp add: getPathToNode_loop.simps[of s3 "Some grandchild"]
          getPathToNode_loop.simps[of s3 "Some child"]
          getPathToNode_loop.simps[of s3 "Some root"] ps g1 g2 nz ids)
  from A P show ?thesis by simp
qed

theorem chain_ancestors_path_witness:
  "getAncestors
     \<lparr>rows = [\<lparr>node_id = 1, label = ''root'', parent_id = None\<rparr>,
              \<lparr>node_id = 2, label = ''child'', parent_id = Some 1\<rparr>,
              \<lparr>node_id = 3, label = ''grandchild'', parent_id = Some 2\<rparr>],
      sqlite_sequence = 3\<rparr> 3
    = Some [\<lparr>node_id = 2, label = ''child'', parent_id = Some 1\<rparr>,
            \<lparr>node_id = 1, label = ''root'', parent_id = None\<rparr>]
   \<and> getPathToNode
     \<lparr>rows = [\<lparr>node_id = 1, label = ''root'', parent_id = None\<rparr>,
              \<lparr>node_id = 2, label = ''child'', parent_id = Some 1\<rparr>,
              \<lparr>node_id = 3, label = ''grandchild'', parent_id = Some 2\<rparr>],
      sqlite_sequence = 3\<rparr> 3
    = Some [(1, ''root''), (2, ''child''), (3, ''grandchild'')]"
proof -
  let ?root = "\<lparr>node_id = 1, label = ''root'', parent_id = None\<rparr>"
  let ?child = "\<lparr>node_id = 2, label = ''child'', parent_id = Some 1\<rparr>"
  let ?grandchild = "\<lparr>node_id = 3, label = ''grandchild'', parent_id = Some 2\<rparr>"
  let ?s1 = "\<lparr>rows = [?root], sqlite_sequence = 1\<rparr>"
  let ?s2 = "\<lparr>rows = [?root, ?child], sqlite_sequence = 2\<rparr>"
  let ?s3 = "\<lparr>rows = [?root, ?child, ?grandchild], sqlite_sequence = 3\<rparr>"
  have q: "0 \<le> sqlite_sequence empty_store" by (simp add: empty_store_def)
  have c1: "createNode empty_store ''root'' None = (Inr (Some ?root), ?s1)"
    by (simp add: createNode_def insert_row_def getNodeById_def empty_store_def)
  have c2: "createNode ?s1 ''child'' (Some (node_id ?root)) = (Inr (Some ?child), ?s2)"
    by (simp add: createNode_def insert_row_def getNodeById_def nodeExists_def)
  have c3: "createNode ?s2 ''grandchild'' (Some (node_id ?child)) = (Inr (Some ?grandchild), ?s3)"
    by (simp add: createNode_def insert_row_def getNodeById_def nodeExists_def)
  from chain_ancestors_path[OF q c1 c2 c3] show ?thesis by simp
qed

section \<open>Walks on a cycle\<close>

lemma looped_getNodeById:
  "getNodeById looped 1 = Some \<lparr>node_id = 1, label = ''a'', parent_id = Some 1\<rparr>"
  by (simp add: getNodeById_def looped_def)

lemma looped_children:
  "getChildrenByParentId looped 1 = [\<lparr>node_id = 1, label = ''a'', parent_id = Some 1\<rparr>]"
  by (simp add: getChildrenByParentId_def looped_def)

text \<open>The ancestor walk comes back to the same node with a longer list: no run of it returns.\<close>

lemma getAncestors_loop_looped:
  "getAncestors_loop looped (Some \<lparr>node_id = 1, label = ''a'', parent_id = Some 1\<rparr>) acc = None"
proof -
  let ?n = "\<lparr>node_id = 1, label = ''a'', parent_id = Some (1::int)\<rparr>"
  have "\<not> (s = looped \<and> c = Some ?n)" if "getAncestors_loop s c acc = Some y" for s c acc y
  proof (rule getAncestors_loop.raw_induct[where P = "\<lambda>s c acc y. \<not> (s = looped \<and> c = Some ?n)",
        OF _ that], goal_cases)
    case (1 f s c acc y)
    show ?case
    proof
      assume a: "s = looped \<and> c = Some ?n"
      from 1(2) a have "f looped (Some ?n) (acc @ [?n]) = Some y"
        by (simp add: looped_getNodeById)
      from 1(1)[OF this] show False by simp
    qed
  qed
  then show ?thesis by (cases "getAncestors_loop looped (Some ?n) acc") auto
qed

lemma getAllDescendants_loop_looped:
  "getAllDescendants_loop looped [\<lparr>node_id = 1, label = ''a'', parent_id = Some 1\<rparr>] = None"
proof -
  let ?n = "\<lparr>node_id = 1, label = ''a'', parent_id = Some (1::int)\<rparr>"
  have "\<not> (s = looped \<and> cs = [?n])" if "getAllDescendants_loop s cs = Some y" for s cs y
  proof (rule getAllDescendants_loop.raw_induct[where P = "\<lambda>s cs y. \<not> (s = looped \<and> cs = [?n])",
        OF _ that], goal_cases)
    case (1 f s cs y)
    show ?case
    proof
      assume a: "s = looped \<and> cs = [?n]"
      from 1(2) a obtain z where "f looped [?n] = Some z"
        by (auto simp: bind_eq_Some_conv looped_children)
      from 1(1)[OF this] show False by simp
    qed
  qed
  then show ?thesis by (cases "getAllDescendants_loop looped [?n]") auto
qed

text \<open>The walk on ids is cut off: it never collects more than maxDepth ids.\<close>

lemma getAncestorIds_loop_length:
  "length (getAncestorIds_loop s c d acc) \<le> length acc + (maxDepth - d)"
proof (induction s c d acc rule: getAncestorIds_loop.induct)
  case (1 s c d acc)
  show ?case
  proof (cases "c \<noteq> 0 \<and> d < maxDepth")
    case False
    then show ?thesis by (subst getAncestorIds_loop.simps) auto
  next
    case True
    show ?thesis
    proof (cases "getNodeById s c")
      case None
      with True show ?thesis by (subst getAncestorIds_loop.simps) auto
    next
      case (Some n)
      show ?thesis
      proof (cases "parent_id n")
        case None
        with True Some show ?thesis by (subst getAncestorIds_loop.simps) auto
      next
        case (Some p)
        from "1.IH"[OF True \<open>getNodeById s c = Some n\<close> Some]
        have "length (getAncestorIds_loop s p (d + 1) (acc @ [p])) \<le> length (acc @ [p]) + (maxDepth - (d + 1))" .
        with True \<open>getNodeById s c = Some n\<close> Some show ?thesis
          by (subst getAncestorIds_loop.simps) auto
      qed
    qed
  qed
qed

lemma getAncestorIds_length: "length (getAncestorIds s i) \<le> maxDepth"
  using getAncestorIds_loop_length[of s i 0 "[]"] by (simp add: getAncestorIds_def)

text \<open>
  C3 (the code fails the claim): on the table whose row 1 is its own parent,
  getAncestors 1, getNodeDepth 1 and getAllDescendants 1 do not return. Only
  getAncestorIds has the maximum-depth guard.
\<close>

theorem unguarded_walks_do_not_return:
  "getAncestors looped 1 = None \<and> getNodeDepth looped 1 = None \<and> getAllDescendants looped 1 = None"
  by (simp add: getAncestors_def getAllDescendants_def getNodeDepth_def
        getAncestors_loop_looped getAllDescendants_loop_looped looped_getNodeById looped_children)

section \<open>Validation of created stores\<close>

lemma getNodeById_Some: "getNodeById s i = Some n \<Longrightarrow> node_id n = i \<and> n \<in> set (rows s)"
  by (auto simp: getNodeById_def find_Some_iff in_set_conv_nth)

lemma getNodeById_None: "getNodeById s i = None \<longleftrightarrow> (\<forall>n\<in>set (rows s). node_id n \<noteq> i)"
  by (auto simp: getNodeById_def find_None_iff)

lemma nodeExists_iff: "nodeExists s i \<longleftrightarrow> (\<exists>n\<in>set (rows s). node_id n = i)"
  by (auto simp: nodeExists_def filter_empty_conv)

lemma svc_createNode_store:
  "snd (svc_createNode s l p) = s \<or> snd (svc_createNode s l p) = snd (createNode s l p)"
  by (auto simp: svc_createNode_def split: option.splits prod.splits sum.splits)

lemma createNode_parents_older:
  assumes "parents_older s"
  shows "parents_older (snd (createNode s l p))"
proof (cases "createNode s l p")
  case (Pair r s')
  show ?thesis
  proof (cases r)
    case (Inl e)
    with Pair createNode_Inl[of s l p e s'] assms show ?thesis by simp
  next
    case (Inr v)
    with Pair createNode_Inr[of s l p v s'] obtain i where
      s': "s' = \<lparr>rows = rows s @ [\<lparr>node_id = i, label = l, parent_id = p\<rparr>], sqlite_sequence = i\<rparr>"
      and lt: "sqlite_sequence s < i" and fresh: "\<forall>n\<in>set (rows s). node_id n < i" by auto
    have ex: "\<exists>m\<in>set (rows s). node_id m = q" if "p = Some q" for q
    proof -
      from Pair Inr that have "nodeExists s q"
        by (auto simp: createNode_def split: if_splits)
      then show ?thesis by (simp add: nodeExists_iff)
    qed
    have "parents_older s'"
      unfolding parents_older_def s'
      using assms lt fresh ex by (fastforce simp: parents_older_def)
    with Pair show ?thesis by simp
  qed
qed

lemma created_parents_older: "created s \<Longrightarrow> parents_older s"
proof (induction rule: created.induct)
  case (created_empty k)
  then show ?case by (simp add: parents_older_def)
next
  case (created_query s l p)
  then show ?case by (simp add: createNode_parents_older)
next
  case (created_service s l p)
  with svc_createNode_store[of s l p] show ?case by (auto simp: createNode_parents_older)
qed

lemma getAncestorIds_loop_below:
  "parents_older s \<Longrightarrow> set (getAncestorIds_loop s c d acc) \<subseteq> set acc \<union> {x. x < c}"
proof (induction s c d acc rule: getAncestorIds_loop.induct)
  case (1 s c d acc)
  show ?case
  proof (cases "c \<noteq> 0 \<and> d < maxDepth")
    case False
    then show ?thesis by (subst getAncestorIds_loop.simps) auto
  next
    case True
    show ?thesis
    proof (cases "getNodeById s c")
      case None
      with True show ?thesis by (subst getAncestorIds_loop.simps) auto
    next
      case (Some n)
      show ?thesis
      proof (cases "parent_id n")
        case None
        with True Some show ?thesis by (subst getAncestorIds_loop.simps) auto
      next
        case (Some p)
        from getNodeById_Some[OF \<open>getNodeById s c = Some n\<close>] have n: "node_id n = c" "n \<in> set (rows s)" by auto
        with Some "1.prems" have "p < c" by (auto simp: parents_older_def)
        moreover from "1.IH"[OF True \<open>getNodeById s c = Some n\<close> Some "1.prems"]
        have "set (getAncestorIds_loop s p (d + 1) (acc @ [p])) \<subseteq> set (acc @ [p]) \<union> {x. x < p}" .
        ultimately have "set (getAncestorIds_loop s p (d + 1) (acc @ [p])) \<subseteq> set acc \<union> {x. x < c}" by auto
        with True \<open>getNodeById s c = Some n\<close> Some show ?thesis
          by (subst getAncestorIds_loop.simps) auto
      qed
    qed
  qed
qed

lemma node_map_has:
  "(fold (\<lambda>n m. m(node_id n \<mapsto> n)) ns m0) p = None \<longleftrightarrow> (m0 p = None \<and> (\<forall>n\<in>set ns. node_id n \<noteq> p))"
  by (induction ns arbitrary: m0) auto

lemma set_getAllNodes: "set (getAllNodes s) = set (rows s)"
  by (simp add: getAllNodes_def)

text \<open>
  C7: on every store reached from an empty table by creates alone, validateTreeStructure
  (called without a node list, so on all rows) reports isValid and an empty list of
  issues: no orphaned_node and no circular_reference; traversal_error needs a failure of
  the database.
\<close>

theorem created_store_is_valid:
  assumes "created s"
  shows "isValid (validateTreeStructure s None) \<and> issues (validateTreeStructure s None) = []"
proof -
  from assms have po: "parents_older s" by (rule created_parents_older)
  let ?nodes = "getAllNodes s"
  let ?m = "fold (\<lambda>n m. m(node_id n \<mapsto> n)) ?nodes Map.empty"
  have "node_issues s ?m n = []" if "n \<in> set ?nodes" for n
  proof (cases "parent_id n")
    case None
    then show ?thesis by (simp add: node_issues_def)
  next
    case (Some p)
    from that have n: "n \<in> set (rows s)" by (simp add: set_getAllNodes)
    with po Some have "\<exists>m\<in>set (rows s). node_id m = p" by (auto simp: parents_older_def)
    then have has: "?m p \<noteq> None" by (simp add: node_map_has set_getAllNodes)
    from getAncestorIds_loop_below[OF po, of "node_id n" 0 "[]"]
    have "node_id n \<notin> set (getAncestorIds s (node_id n))" by (auto simp: getAncestorIds_def)
    with has Some show ?thesis by (simp add: node_issues_def)
  qed
  then have "concat (map (node_issues s ?m) ?nodes) = []" by simp
  then show ?thesis by (simp add: validateTreeStructure_def Let_def)
qed

theorem created_store_is_valid_witness:
  "isValid (validateTreeStructure zoo None) \<and> issues (validateTreeStructure zoo None) = []"
proof -
  have "created empty_store" unfolding empty_store_def by (rule created_empty) simp
  then have "created zoo" unfolding zoo_created by (intro created_service)
  from created_store_is_valid[OF this] show ?thesis .
qed

section \<open>Acyclic parent pointers\<close>

lemma parent_rel_iff:
  "(c, p) \<in> parent_rel ns \<longleftrightarrow> (\<exists>n\<in>set ns. node_id n = c \<and> parent_id n = Some p)"
proof
  assume "(c, p) \<in> parent_rel ns"
  then show "\<exists>n\<in>set ns. node_id n = c \<and> parent_id n = Some p"
    by (auto simp: parent_rel_def split: option.splits)
next
  assume "\<exists>n\<in>set ns. node_id n = c \<and> parent_id n = Some p"
  then obtain n where "n \<in> set ns" "node_id n = c" "parent_id n = Some p" by blast
  then show "(c, p) \<in> parent_rel ns"
    by (auto simp: parent_rel_def split: option.splits intro!: bexI[of _ n])
qed

lemma finite_parent_rel: "finite (parent_rel ns)"
  unfolding parent_rel_def by (rule finite_set)

lemma wf_towards_root: "acyclic (parent_rel ns) \<Longrightarrow> wf ((parent_rel ns)\<inverse>)"
  by (rule finite_acyclic_wf_converse[OF finite_parent_rel])

lemma wf_towards_leaves: "acyclic (parent_rel ns) \<Longrightarrow> wf (parent_rel ns)"
  by (rule finite_acyclic_wf[OF finite_parent_rel])

lemma node_id_inj:
  "distinct (map node_id ns) \<Longrightarrow> n \<in> set ns \<Longrightarrow> n' \<in> set ns \<Longrightarrow> node_id n = node_id n' \<Longrightarrow> n = n'"
  by (auto simp: distinct_map inj_on_def)

lemma parent_rel_single_valued:
  assumes "distinct (map node_id ns)"
  shows "single_valued (parent_rel ns)"
  unfolding single_valued_def
proof (intro allI impI)
  fix c p p'
  assume "(c, p) \<in> parent_rel ns" and "(c, p') \<in> parent_rel ns"
  then obtain n n' where n: "n \<in> set ns" "node_id n = c" "parent_id n = Some p"
    and n': "n' \<in> set ns" "node_id n' = c" "parent_id n' = Some p'"
    by (auto simp: parent_rel_iff)
  from node_id_inj[OF assms n(1) n'(1)] n(2) n'(2) have "n = n'" by simp
  with n(3) n'(3) show "p = p'" by simp
qed

text \<open>
  On acyclic pointers both walks from a row end, and the path walk makes one step
  more than the ancestor walk: it also records the row it starts from.
\<close>

lemma walks_agree:
  assumes wf: "wf ((parent_rel (rows s))\<inverse>)" and pos: "\<forall>n\<in>set (rows s). 0 < node_id n"
  shows "n \<in> set (rows s) \<Longrightarrow> node_id n = i \<Longrightarrow>
         \<exists>xs ys. (\<forall>acc. getAncestors_loop s (Some n) acc = Some (acc @ xs))
                \<and> (\<forall>pth. getPathToNode_loop s (Some n) pth = Some (ys @ pth))
                \<and> length ys = Suc (length xs)"
  using wf
proof (induction i arbitrary: n rule: wf_induct_rule)
  case (less i)
  show ?case
  proof (cases "parent_id n")
    case None
    have "getAncestors_loop s (Some n) acc = Some (acc @ [])" for acc
      by (subst getAncestors_loop.simps) (simp add: None)
    moreover have "getPathToNode_loop s (Some n) pth = Some ([(node_id n, label n)] @ pth)" for pth
      by (subst getPathToNode_loop.simps) (simp add: None)
    ultimately show ?thesis by (intro exI[of _ "[]"] exI[of _ "[(node_id n, label n)]"]) simp
  next
    case (Some p)
    show ?thesis
    proof (cases "getNodeById s p")
      case None
      have "getAncestors_loop s (Some n) acc = Some (acc @ [])" for acc
        by (subst getAncestors_loop.simps) (simp add: Some None)
      moreover have "getPathToNode_loop s (Some n) pth = Some ([(node_id n, label n)] @ pth)" for pth
        by (subst getPathToNode_loop.simps, simp add: Some None Let_def)
           (subst getPathToNode_loop.simps, simp)
      ultimately show ?thesis by (intro exI[of _ "[]"] exI[of _ "[(node_id n, label n)]"]) simp
    next
      case (Some parent)
      from getNodeById_Some[OF Some] have par: "node_id parent = p" "parent \<in> set (rows s)" by auto
      with pos have nz: "p \<noteq> 0" by auto
      from less.prems \<open>parent_id n = Some p\<close> have "(i, p) \<in> parent_rel (rows s)"
        by (auto simp: parent_rel_iff)
      then have "(p, i) \<in> (parent_rel (rows s))\<inverse>" by simp
      from less.IH[OF this par(2) par(1)] obtain xs ys where
        A: "\<And>acc. getAncestors_loop s (Some parent) acc = Some (acc @ xs)"
        and P: "\<And>pth. getPathToNode_loop s (Some parent) pth = Some (ys @ pth)"
        and len: "length ys = Suc (length xs)" by blast
      have "getAncestors_loop s (Some n) acc = Some (acc @ (parent # xs))" for acc
        by (subst getAncestors_loop.simps) (simp add: \<open>parent_id n = Some p\<close> Some A)
      moreover have "getPathToNode_loop s (Some n) pth = Some ((ys @ [(node_id n, label n)]) @ pth)" for pth
        by (subst getPathToNode_loop.simps) (simp add: \<open>parent_id n = Some p\<close> Some P nz Let_def)
      ultimately show ?thesis using len
        by (intro exI[of _ "parent # xs"] exI[of _ "ys @ [(node_id n, label n)]"]) simp
    qed
  qed
qed

text \<open>
  C8: in a store with acyclic parent pointers and positive ids, for every node that is
  in the store getNodeDepth and getPathToNode return, and the depth is the length of the
  path minus 1; a root has depth 0 and a path of length 1.
\<close>

theorem depth_is_path_length_minus_one:
  assumes "acyclic (parent_rel (rows s))" and "\<forall>n\<in>set (rows s). 0 < node_id n"
    and "getNodeById s i = Some n"
  shows "\<exists>d p. getNodeDepth s i = Some d \<and> getPathToNode s i = Some p
               \<and> int d = int (length p) - 1
               \<and> (parent_id n = None \<longrightarrow> d = 0 \<and> length p = 1)"
proof -
  from getNodeById_Some[OF assms(3)] have n: "node_id n = i" "n \<in> set (rows s)" by auto
  from walks_agree[OF wf_towards_root[OF assms(1)] assms(2) n(2) n(1)] obtain xs ys where
    A: "\<And>acc. getAncestors_loop s (Some n) acc = Some (acc @ xs)"
    and P: "\<And>pth. getPathToNode_loop s (Some n) pth = Some (ys @ pth)"
    and len: "length ys = Suc (length xs)" by blast
  have d: "getNodeDepth s i = Some (length xs)"
    using A[of "[]"] by (simp add: getNodeDepth_def getAncestors_def assms(3))
  have p: "getPathToNode s i = Some ys"
    using P[of "[]"] by (simp add: getPathToNode_def assms(3))
  have "xs = []" if "parent_id n = None"
  proof -
    have "getAncestors_loop s (Some n) [] = Some []"
      by (subst getAncestors_loop.simps) (simp add: that)
    with A[of "[]"] show ?thesis by simp
  qed
  with d p len show ?thesis by auto
qed

theorem depth_is_path_length_minus_one_witness:
  "\<exists>d p. getNodeDepth zoo 3 = Some d \<and> getPathToNode zoo 3 = Some p \<and> int d = int (length p) - 1"
proof -
  have "acyclic (parent_rel (rows zoo))"
    by (rule acyclicI_order[where f = "\<lambda>x. x"]) (auto simp: parent_rel_def zoo_def)
  moreover have "\<forall>n\<in>set (rows zoo). 0 < node_id n" by (simp add: zoo_def)
  moreover have "getNodeById zoo 3 = Some \<lparr>node_id = 3, label = ''cat'', parent_id = Some 2\<rparr>"
    by (simp add: getNodeById_def zoo_def)
  ultimately show ?thesis using depth_is_path_length_minus_one[of zoo 3] by blast
qed

section \<open>The tree of a node that is not a root\<close>

lemma set_getChildrenByParentId:
  "set (getChildrenByParentId s i) = {n \<in> set (rows s). parent_id n = Some i}"
  by (simp add: getChildrenByParentId_def)

text \<open>On acyclic pointers the descendant walk returns, and every row it returns has a parent.\<close>

lemma getAllDescendants_loop_returns:
  assumes wf: "wf (parent_rel (rows s))"
  shows "\<exists>ds. getAllDescendants_loop s (getChildrenByParentId s i) = Some ds
             \<and> (\<forall>d\<in>set ds. d \<in> set (rows s) \<and> parent_id d \<noteq> None)"
  using wf
proof (induction i rule: wf_induct_rule)
  case (less i)
  have step: "\<forall>c\<in>set cs. c \<in> set (rows s) \<and> parent_id c = Some i \<Longrightarrow>
        \<exists>ds. getAllDescendants_loop s cs = Some ds \<and> (\<forall>d\<in>set ds. d \<in> set (rows s) \<and> parent_id d \<noteq> None)" for cs
  proof (induction cs)
    case Nil
    show ?case by (subst getAllDescendants_loop.simps) simp
  next
    case (Cons c cs)
    then have "(node_id c, i) \<in> parent_rel (rows s)" by (auto simp: parent_rel_iff)
    from less.IH[OF this] obtain ds1 where
      d1: "getAllDescendants_loop s (getChildrenByParentId s (node_id c)) = Some ds1"
      and p1: "\<forall>d\<in>set ds1. d \<in> set (rows s) \<and> parent_id d \<noteq> None" by blast
    from Cons obtain ds2 where
      d2: "getAllDescendants_loop s cs = Some ds2"
      and p2: "\<forall>d\<in>set ds2. d \<in> set (rows s) \<and> parent_id d \<noteq> None" by auto
    have "getAllDescendants_loop s (c # cs) = Some (c # ds1 @ ds2)"
      by (subst getAllDescendants_loop.simps) (simp add: d1 d2)
    with p1 p2 Cons.prems show ?case by auto
  qed
  show ?case by (rule step) (simp add: set_getChildrenByParentId)
qed

lemma fold_attach_no_roots:
  "\<forall>n\<in>set ns. parent_id n \<noteq> r \<Longrightarrow> snd (fold (attach r) ns (m, ts)) = ts"
  by (induction ns arbitrary: m) (auto simp: attach_def split: option.splits)

lemma buildHierarchy_no_roots:
  assumes "\<forall>n\<in>set ns. parent_id n \<noteq> r"
  shows "buildHierarchy k ns r = Some []"
proof (cases "ns = []")
  case True
  then show ?thesis by (simp add: buildHierarchy_def)
next
  case False
  obtain m ts where f: "fold (attach r) ns (make_nodeMap ns, []) = (m, ts)" by fastforce
  with fold_attach_no_roots[OF assms, of "make_nodeMap ns" "[]"] have "ts = []" by simp
  with f False show ?thesis by (simp add: buildHierarchy_def)
qed

text \<open>
  C10: in a store with acyclic parent pointers, for every node that is in the store and
  has a parent_id, getTreeByRootId returns null, whatever the stack takes.
\<close>

theorem tree_of_non_root_is_null:
  assumes "acyclic (parent_rel (rows s))" and "getNodeById s i = Some n" and "parent_id n = Some p"
  shows "getTreeByRootId k s i = Some (Inr None)"
proof -
  from getAllDescendants_loop_returns[OF wf_towards_leaves[OF assms(1)], of i] obtain ds where
    ds: "getAllDescendants s i = Some ds" and par: "\<forall>d\<in>set ds. parent_id d \<noteq> None"
    by (auto simp: getAllDescendants_def)
  from par assms(3) have "\<forall>m\<in>set (n # ds). parent_id m \<noteq> None" by simp
  from buildHierarchy_no_roots[OF this] have "buildHierarchy k (n # ds) None = Some []" .
  with ds assms(2) show ?thesis by (simp add: getTreeByRootId_def)
qed

theorem tree_of_non_root_is_null_witness:
  "getNodeById zoo 2 = Some \<lparr>node_id = 2, label = ''bear'', parent_id = Some 1\<rparr>
   \<and> getTreeByRootId 1000 zoo 2 = Some (Inr None)"
proof -
  have a: "acyclic (parent_rel (rows zoo))"
    by (rule acyclicI_order[where f = "\<lambda>x. x"]) (auto simp: parent_rel_def zoo_def)
  have g: "getNodeById zoo 2 = Some \<lparr>node_id = 2, label = ''bear'', parent_id = Some 1\<rparr>"
    by (simp add: getNodeById_def zoo_def)
  from tree_of_non_root_is_null[OF a g] g show ?thesis by simp
qed

section \<open>The sorting pass of buildHierarchy\<close>

lemma sort_eq_Nil: "sort xs = [] \<longleftrightarrow> (xs :: int list) = []"
  by (metis length_0_conv length_sort)

lemma sort_all_idem: "sort_all (sort_all h) = sort_all h"
  by (rule ext) (simp add: sort_all_def option.map_comp comp_def sorted_sort_id)

lemma sorted_more_refl: "sorted_more h h"
  by (simp add: sorted_more_def)

lemma sorted_more_sort_all: "sorted_more h h' \<Longrightarrow> sort_all h' = sort_all h"
proof (rule ext)
  fix i assume "sorted_more h h'"
  then have "h' i = h i \<or> h' i = sort_all h i" by (simp add: sorted_more_def)
  then show "sort_all h' i = sort_all h i"
  proof
    assume "h' i = h i" then show ?thesis by (simp add: sort_all_def)
  next
    assume "h' i = sort_all h i"
    then have "sort_all h' i = sort_all (sort_all h) i" by (simp add: sort_all_def)
    then show ?thesis by (simp add: sort_all_idem)
  qed
qed

lemma sorted_more_trans:
  assumes "sorted_more h h1" and "sorted_more h1 h2"
  shows "sorted_more h h2"
  unfolding sorted_more_def
proof
  fix i
  from assms(2) have "h2 i = h1 i \<or> h2 i = sort_all h1 i" by (simp add: sorted_more_def)
  moreover from assms(1) have "h1 i = h i \<or> h1 i = sort_all h i" by (simp add: sorted_more_def)
  moreover have "sort_all h1 i = sort_all h i" using sorted_more_sort_all[OF assms(1)] by simp
  ultimately show "h2 i = h i \<or> h2 i = sort_all h i" by auto
qed

lemma sorted_more_update:
  "h i = Some obj \<Longrightarrow> sorted_more h (h(i \<mapsto> obj\<lparr>obj_children := sort (obj_children obj)\<rparr>))"
  by (simp add: sorted_more_def sort_all_def)

text \<open>An object whose children are sorted stays as it is in every later heap.\<close>

lemma sorted_more_keeps:
  assumes "sorted_more h h'" and "h i = Some obj" and "sorted (obj_children obj)"
  shows "h' i = Some obj"
proof -
  have "obj\<lparr>obj_children := sort (obj_children obj)\<rparr> = obj"
    using assms(3) by (simp add: sorted_sort_id)
  then have "sort_all h i = Some obj" using assms(2) by (simp add: sort_all_def)
  moreover from assms(1) have "h' i = h i \<or> h' i = sort_all h i" by (simp add: sorted_more_def)
  ultimately show ?thesis using assms(2) by auto
qed

lemma sorted_more_None:
  assumes "sorted_more h h'" and "h i = None"
  shows "h' i = None"
proof -
  from assms(1) have "h' i = h i \<or> h' i = sort_all h i" by (simp add: sorted_more_def)
  with assms(2) show ?thesis by (auto simp: sort_all_def)
qed

lemma sorted_more_children_empty:
  "sorted_more h h' \<Longrightarrow> h i = Some obj \<Longrightarrow> obj_children obj = [] \<Longrightarrow> h' i = Some obj"
  using sorted_more_keeps[of h h' i obj] by simp

lemma sorted_below_later:
  "sorted_more h h' \<Longrightarrow> sorted_below k h i \<Longrightarrow> sorted_below k h' i"
proof (induction k arbitrary: i)
  case 0
  then show ?case by simp
next
  case (Suc k)
  show ?case
  proof (cases "h i")
    case None
    with Suc.prems sorted_more_None[of h h' i] show ?thesis by simp
  next
    case (Some obj)
    with Suc.prems have s: "sorted (obj_children obj)" and c: "\<forall>c\<in>set (obj_children obj). sorted_below k h c"
      by auto
    from sorted_more_keeps[OF Suc.prems(1) Some s] have "h' i = Some obj" .
    with s c Suc.IH[OF Suc.prems(1)] show ?thesis by simp
  qed
qed

lemma sorted_below_leaf: "h i = Some obj \<Longrightarrow> obj_children obj = [] \<Longrightarrow> sorted_below n h i"
  by (cases n) auto

lemma sorted_below_absent: "h i = None \<Longrightarrow> sorted_below n h i"
  by (cases n) auto

text \<open>
  When the pass returns, the heap is a later heap of the one it started from, and below
  every object of the list all children arrays are sorted, to any depth.
\<close>

lemma sortChildrenRecursively_Some:
  "sortChildrenRecursively k h ids = Some h' \<Longrightarrow>
   sorted_more h h' \<and> (\<forall>i\<in>set ids. \<forall>n. sorted_below n h' i)"
proof (induction k h ids arbitrary: h' rule: sortChildrenRecursively.induct)
  case (1 k h)
  then show ?case by (simp add: sorted_more_refl)
next
  case (2 k h i rest)
  show ?case
  proof (cases "h i")
    case None
    with "2.prems" have r: "sortChildrenRecursively k h rest = Some h'" by simp
    from "2.IH"(1)[OF None r] have m: "sorted_more h h'" and b: "\<forall>j\<in>set rest. \<forall>n. sorted_below n h' j" by auto
    from sorted_more_None[OF m None] have "\<forall>n. sorted_below n h' i" by (simp add: sorted_below_absent)
    with m b show ?thesis by simp
  next
    case (Some obj)
    show ?thesis
    proof (cases "obj_children obj = []")
      case True
      with Some "2.prems" have r: "sortChildrenRecursively k h rest = Some h'" by simp
      from "2.IH"(2)[OF Some True r] have m: "sorted_more h h'" and b: "\<forall>j\<in>set rest. \<forall>n. sorted_below n h' j" by auto
      from sorted_more_children_empty[OF m Some True] True have "\<forall>n. sorted_below n h' i"
        by (simp add: sorted_below_leaf)
      with m b show ?thesis by simp
    next
      case False
      with Some "2.prems" obtain k' where k: "k = Suc k'" by (cases k) auto
      let ?cs = "sort (obj_children obj)"
      let ?h1 = "h(i \<mapsto> obj\<lparr>obj_children := ?cs\<rparr>)"
      from Some False "2.prems" k obtain h2 where
        c: "sortChildrenRecursively k' ?h1 ?cs = Some h2"
        and r: "sortChildrenRecursively k h2 rest = Some h'"
        by (auto simp: Let_def split: option.splits)
      from "2.IH"(3)[OF Some False k refl c] have m1: "sorted_more ?h1 h2"
        and b1: "\<forall>c\<in>set ?cs. \<forall>n. sorted_below n h2 c" by blast+
      from "2.IH"(4)[OF Some False k refl c r] have m2: "sorted_more h2 h'"
        and b2: "\<forall>j\<in>set rest. \<forall>n. sorted_below n h' j" by blast+
      have m: "sorted_more h h'"
        by (rule sorted_more_trans[OF sorted_more_trans[OF sorted_more_update[of h i obj, OF Some] m1] m2])
      have "?h1 i = Some (obj\<lparr>obj_children := ?cs\<rparr>)" by simp
      from sorted_more_keeps[OF sorted_more_trans[OF m1 m2] this]
      have hi: "h' i = Some (obj\<lparr>obj_children := ?cs\<rparr>)" by simp
      have "sorted_below n h' i" for n
      proof (cases n)
        case 0
        then show ?thesis by simp
      next
        case (Suc n')
        from b1 have "\<forall>c\<in>set ?cs. sorted_below n' h' c"
          using sorted_below_later[OF m2] by blast
        with hi Suc show ?thesis by simp
      qed
      with m b2 show ?thesis by simp
    qed
  qed
qed

lemma those_map_None: "x \<in> set xs \<Longrightarrow> f x = None \<Longrightarrow> those (map f xs) = None"
  by (induction xs) (auto split: option.splits)

lemma those_map_Some:
  "\<forall>x\<in>set xs. f x \<noteq> None \<Longrightarrow> those (map f xs) = Some (map (\<lambda>x. the (f x)) xs)"
  by (induction xs) (auto split: option.splits)

text \<open>Where the children arrays are sorted, reading the heap and reading the sorted heap agree.\<close>

lemma materialize_sorted:
  "sorted_below k h i \<Longrightarrow> materialize k h i = materialize k (sort_all h) i"
proof (induction k arbitrary: i)
  case 0
  show ?case by (cases "h i") (simp_all add: sort_all_def sort_eq_Nil)
next
  case (Suc k)
  show ?case
  proof (cases "h i")
    case None
    then show ?thesis by (simp add: sort_all_def)
  next
    case (Some obj)
    with Suc.prems have s: "sorted (obj_children obj)"
      and c: "\<forall>c\<in>set (obj_children obj). sorted_below k h c" by auto
    have eq: "map (materialize k h) (obj_children obj) = map (materialize k (sort_all h)) (obj_children obj)"
      using c Suc.IH by simp
    have sa: "sort_all h i = Some obj" using Some s by (simp add: sort_all_def sorted_sort_id)
    show ?thesis by (simp only: materialize.simps Some sa option.case eq)
  qed
qed

text \<open>When the pass runs out of stack, the sorted heap has no value within that depth either.\<close>

lemma sortChildrenRecursively_None:
  "sortChildrenRecursively k h ids = None \<Longrightarrow> \<exists>i\<in>set ids. materialize k (sort_all h) i = None"
proof (induction k h ids rule: sortChildrenRecursively.induct)
  case (1 k h)
  then show ?case by simp
next
  case (2 k h i rest)
  show ?case
  proof (cases "h i")
    case None
    with "2.prems" "2.IH"(1) show ?thesis by simp
  next
    case (Some obj)
    show ?thesis
    proof (cases "obj_children obj = []")
      case True
      with Some "2.prems" "2.IH"(2) show ?thesis by simp
    next
      case False
      let ?cs = "sort (obj_children obj)"
      let ?h1 = "h(i \<mapsto> obj\<lparr>obj_children := ?cs\<rparr>)"
      have ne: "?cs \<noteq> []" using False by (simp add: sort_eq_Nil)
      show ?thesis
      proof (cases k)
        case 0
        have "sort_all h i = Some (obj\<lparr>obj_children := ?cs\<rparr>)" by (simp add: sort_all_def Some)
        with ne have "materialize 0 (sort_all h) i = None" by simp
        with 0 show ?thesis by auto
      next
        case (Suc k')
        have h1: "sort_all ?h1 = sort_all h"
          by (rule sorted_more_sort_all[OF sorted_more_update[of h i obj, OF Some]])
        show ?thesis
        proof (cases "sortChildrenRecursively k' ?h1 ?cs")
          case None
          from "2.IH"(3)[OF Some False Suc refl None] obtain c where
            "c \<in> set ?cs" "materialize k' (sort_all ?h1) c = None" by blast
          then have c: "c \<in> set ?cs" "materialize k' (sort_all h) c = None" unfolding h1 .
          have "sort_all h i = Some (obj\<lparr>obj_children := ?cs\<rparr>)" by (simp add: sort_all_def Some)
          with those_map_None[of c ?cs "materialize k' (sort_all h)", OF c] have "materialize (Suc k') (sort_all h) i = None" by simp
          with Suc show ?thesis by auto
        next
          case (Some h2)
          with \<open>h i = Some obj\<close> False Suc "2.prems"
          have r: "sortChildrenRecursively k h2 rest = None" by (simp add: Let_def)
          from sortChildrenRecursively_Some[OF Some] have "sorted_more ?h1 h2" by simp
          then have "sort_all h2 = sort_all h" using h1 by (simp add: sorted_more_sort_all)
          with "2.IH"(4)[OF \<open>h i = Some obj\<close> False Suc refl Some r] show ?thesis by auto
        qed
      qed
    qed
  qed
qed

text \<open>
  The forest that buildHierarchy returns is read off the sorted heap of the second pass.
\<close>

lemma buildHierarchy_sorted_heap:
  assumes "ns \<noteq> []" and "fold (attach r) ns (make_nodeMap ns, []) = (h, ts)"
  shows "buildHierarchy k ns r = those (map (materialize k (sort_all h)) ts)"
proof (cases "sortChildrenRecursively k h ts")
  case None
  from sortChildrenRecursively_None[OF None] obtain i where
    "i \<in> set ts" "materialize k (sort_all h) i = None" by blast
  from those_map_None[of i ts "materialize k (sort_all h)", OF this] None assms
  show ?thesis by (simp add: buildHierarchy_def)
next
  case (Some h')
  from sortChildrenRecursively_Some[OF Some] have m: "sorted_more h h'"
    and b: "\<forall>i\<in>set ts. sorted_below k h' i" by auto
  have "map (materialize k h') ts = map (materialize k (sort_all h)) ts"
    using b materialize_sorted[of k h'] sorted_more_sort_all[OF m] by simp
  then have "those (map (materialize k h') ts) = those (map (materialize k (sort_all h)) ts)"
    by (rule arg_cong)
  with Some assms show ?thesis by (simp add: buildHierarchy_def)
qed

section \<open>The heap after the two passes\<close>

lemma fold_attach:
  "fold (attach r) ns (m, ts) =
     (\<lambda>i. map_option (\<lambda>obj. obj\<lparr>obj_children := obj_children obj @ kids r ns i\<rparr>) (m i),
      ts @ map node_id (filter (\<lambda>n. parent_id n = r) ns))"
proof (induction ns arbitrary: m ts)
  case Nil
  show ?case by (simp add: kids_def option.map_ident)
next
  case (Cons n ns)
  show ?case
  proof (cases "parent_id n = r")
    case True
    then have "attach r n (m, ts) = (m, ts @ [node_id n])" by (simp add: attach_def)
    moreover have "kids r (n # ns) = kids r ns" using True by (simp add: kids_def fun_eq_iff)
    ultimately show ?thesis using True by (simp add: Cons.IH)
  next
    case False
    show ?thesis
    proof (cases "parent_id n")
      case None
      then have "attach r n (m, ts) = (m, ts)" using False by (simp add: attach_def)
      moreover have "kids r (n # ns) = kids r ns" using None by (simp add: kids_def fun_eq_iff)
      ultimately show ?thesis using False by (simp add: Cons.IH)
    next
      case (Some p)
      have k: "kids r (n # ns) i = (if i = p then node_id n # kids r ns i else kids r ns i)" for i
        using Some False by (simp add: kids_def)
      show ?thesis
      proof (cases "m p")
        case None
        then have "attach r n (m, ts) = (m, ts)" using False Some by (simp add: attach_def)
        moreover have "map_option (\<lambda>obj. obj\<lparr>obj_children := obj_children obj @ kids r (n # ns) i\<rparr>) (m i)
            = map_option (\<lambda>obj. obj\<lparr>obj_children := obj_children obj @ kids r ns i\<rparr>) (m i)" for i
          using None by (cases "i = p") (simp_all add: k)
        ultimately show ?thesis using False by (simp add: Cons.IH)
      next
        case (Some parent)
        let ?m' = "m(p \<mapsto> parent\<lparr>obj_children := obj_children parent @ [node_id n]\<rparr>)"
        have "attach r n (m, ts) = (?m', ts)"
          using False \<open>parent_id n = Some p\<close> Some by (simp add: attach_def)
        moreover have "map_option (\<lambda>obj. obj\<lparr>obj_children := obj_children obj @ kids r ns i\<rparr>) (?m' i)
            = map_option (\<lambda>obj. obj\<lparr>obj_children := obj_children obj @ kids r (n # ns) i\<rparr>) (m i)" for i
          using Some by (cases "i = p") (simp_all add: k)
        ultimately show ?thesis using False by (simp add: Cons.IH)
      qed
    qed
  qed
qed

lemma find_app:
  "find P (xs @ ys) = (case find P xs of None \<Rightarrow> find P ys | Some x \<Rightarrow> Some x)"
  by (induction xs) auto

lemma fold_map_upd:
  "fold (\<lambda>n m. m(node_id n \<mapsto> g n)) ns m0 i =
     (case find (\<lambda>n. node_id n = i) (rev ns) of None \<Rightarrow> m0 i | Some n \<Rightarrow> Some (g n))"
proof (induction ns arbitrary: m0)
  case Nil
  show ?case by simp
next
  case (Cons n ns)
  let ?f = "\<lambda>n m. m(node_id n \<mapsto> g n)"
  have "fold ?f (n # ns) m0 i = fold ?f ns (m0(node_id n \<mapsto> g n)) i"
    by (simp only: fold.simps o_apply)
  also have "\<dots> = (case find (\<lambda>n. node_id n = i) (rev ns) of
                      None \<Rightarrow> (m0(node_id n \<mapsto> g n)) i | Some x \<Rightarrow> Some (g x))"
    by (rule Cons.IH)
  also have "\<dots> = (case find (\<lambda>n. node_id n = i) (rev (n # ns)) of
                      None \<Rightarrow> m0 i | Some x \<Rightarrow> Some (g x))"
    by (simp add: find_app split: option.splits)
  finally show ?case .
qed

lemma find_distinct:
  assumes "distinct (map node_id xs)" and "n \<in> set xs"
  shows "find (\<lambda>m. node_id m = node_id n) xs = Some n"
proof -
  from assms(2) have "find (\<lambda>m. node_id m = node_id n) xs \<noteq> None" by (auto simp: find_None_iff)
  then obtain n' where f: "find (\<lambda>m. node_id m = node_id n) xs = Some n'" by auto
  then have "node_id n' = node_id n" "n' \<in> set xs" by (auto simp: find_Some_iff in_set_conv_nth)
  with assms have "n' = n" by (auto simp: distinct_map inj_on_def)
  with f show ?thesis by simp
qed

lemma make_nodeMap_absent: "i \<notin> node_id ` set ns \<Longrightarrow> make_nodeMap ns i = None"
  by (auto simp: make_nodeMap_def fold_map_upd find_None_iff split: option.splits)

lemma make_nodeMap_present:
  assumes "distinct (map node_id ns)" and "n \<in> set ns"
  shows "make_nodeMap ns (node_id n) = Some \<lparr>obj_label = label n, obj_children = []\<rparr>"
proof -
  have "distinct (map node_id (rev ns))" using assms(1) by (simp add: rev_map[symmetric])
  from find_distinct[OF this, of n] assms(2) show ?thesis
    by (simp add: make_nodeMap_def fold_map_upd)
qed

lemma hier_heap_absent: "i \<notin> node_id ` set ns \<Longrightarrow> hier_heap ns r i = None"
  by (simp add: hier_heap_def fold_attach sort_all_def make_nodeMap_absent)

lemma hier_heap_present:
  assumes "distinct (map node_id ns)" and "n \<in> set ns"
  shows "hier_heap ns r (node_id n) = Some \<lparr>obj_label = label n, obj_children = sort (kids r ns (node_id n))\<rparr>"
  by (simp add: hier_heap_def fold_attach sort_all_def make_nodeMap_present[OF assms])

lemma buildHierarchy_hier_heap:
  "ns \<noteq> [] \<Longrightarrow> buildHierarchy k ns r =
     those (map (materialize k (hier_heap ns r)) (map node_id (filter (\<lambda>n. parent_id n = r) ns)))"
  using buildHierarchy_sorted_heap[of ns r "fst (fold (attach r) ns (make_nodeMap ns, []))"
      "snd (fold (attach r) ns (make_nodeMap ns, []))"]
  by (simp add: hier_heap_def) (simp add: fold_attach)

section \<open>The forest of a list with distinct ids\<close>

lemma set_kids_attached:
  "set (kids r ns i) = {c. (c, i) \<in> attached ns r}"
  by (auto simp: kids_def attached_def parent_rel_iff)

text \<open>A reading that runs out of depth has a chain of attached nodes, one longer than the depth.\<close>

lemma materialize_None_chain:
  assumes d: "distinct (map node_id ns)"
  shows "i \<in> node_id ` set ns \<Longrightarrow> materialize k (hier_heap ns r) i = None \<Longrightarrow>
         \<exists>x. (x, i) \<in> attached ns r ^^ Suc k"
proof (induction k arbitrary: i)
  case 0
  from 0(1) hier_heap_present[OF d, of _ r] obtain l where
    H: "hier_heap ns r i = Some \<lparr>obj_label = l, obj_children = sort (kids r ns i)\<rparr>" by auto
  with 0(2) have "sort (kids r ns i) \<noteq> []" by (auto split: if_splits)
  then obtain c where "c \<in> set (kids r ns i)" by (cases "kids r ns i") auto
  then have "(c, i) \<in> attached ns r" by (simp add: set_kids_attached)
  then show ?case by auto
next
  case (Suc k)
  let ?E = "attached ns r"
  from Suc(2) hier_heap_present[OF d, of _ r] obtain l where
    H: "hier_heap ns r i = Some \<lparr>obj_label = l, obj_children = sort (kids r ns i)\<rparr>" by auto
  with Suc(3) have "those (map (materialize k (hier_heap ns r)) (sort (kids r ns i))) = None" by simp
  with those_map_Some[of "sort (kids r ns i)" "materialize k (hier_heap ns r)"]
  obtain c where c: "c \<in> set (kids r ns i)" "materialize k (hier_heap ns r) c = None" by auto
  from c(1) have e: "(c, i) \<in> ?E" by (simp add: set_kids_attached)
  then have "c \<in> node_id ` set ns" by (auto simp: attached_def parent_rel_iff)
  from Suc.IH[OF this c(2)] obtain x where "(x, c) \<in> ?E ^^ Suc k" by blast
  from relpow_Suc_I[OF this e] show ?case by blast
qed

text \<open>Where each node has one parent at most, a node is at one distance from a node without parent.\<close>

lemma distance_unique:
  assumes sv: "single_valued E" and top: "\<forall>y. (t, y) \<notin> E"
  shows "(x, t) \<in> E ^^ n \<Longrightarrow> (x, t) \<in> E ^^ m \<Longrightarrow> n = m"
proof (induction n arbitrary: x m)
  case 0
  then have x: "x = t" by simp
  show ?case
  proof (cases m)
    case 0
    then show ?thesis by simp
  next
    case (Suc m')
    from 0(2) have "(t, t) \<in> E ^^ Suc m'" unfolding x Suc .
    from relpow_Suc_D2[OF this] obtain y where "(t, y) \<in> E" by blast
    with top show ?thesis by simp
  qed
next
  case (Suc n)
  from relpow_Suc_D2[OF Suc.prems(1)] obtain y where y: "(x, y) \<in> E" "(y, t) \<in> E ^^ n" by blast
  show ?case
  proof (cases m)
    case 0
    with Suc.prems(2) have "x = t" by simp
    with y(1) top show ?thesis by simp
  next
    case (Suc m')
    from Suc.prems(2) have "(x, t) \<in> E ^^ Suc m'" unfolding Suc .
    from relpow_Suc_D2[OF this] obtain y' where y': "(x, y') \<in> E" "(y', t) \<in> E ^^ m'" by blast
    from sv y(1) y'(1) have "y' = y" by (auto simp: single_valued_def)
    with Suc.IH[OF y(2)] y'(2) Suc show ?thesis by simp
  qed
qed

lemma chain_bound:
  assumes sv: "single_valued E" and top: "\<forall>y. (t, y) \<notin> E"
    and dom: "\<forall>c i. (c, i) \<in> E \<longrightarrow> c \<in> A" and t: "t \<in> A" and fin: "finite A"
    and chain: "(x, t) \<in> E ^^ n"
  shows "n < card A"
proof -
  define f where "f j = (SOME v. (x, v) \<in> E ^^ (n - j) \<and> (v, t) \<in> E ^^ j)" for j
  have f: "(x, f j) \<in> E ^^ (n - j) \<and> (f j, t) \<in> E ^^ j" if "j \<le> n" for j
  proof -
    from that chain have "(x, t) \<in> E ^^ ((n - j) + j)" by simp
    then have "(x, t) \<in> E ^^ (n - j) O E ^^ j" by (simp only: relpow_add)
    then have "\<exists>v. (x, v) \<in> E ^^ (n - j) \<and> (v, t) \<in> E ^^ j" by auto
    then show ?thesis unfolding f_def by (rule someI_ex)
  qed
  have inj: "inj_on f {..n}"
  proof (rule inj_onI)
    fix a b assume "a \<in> {..n}" "b \<in> {..n}" "f a = f b"
    with f[of a] f[of b] have "(f a, t) \<in> E ^^ a" "(f a, t) \<in> E ^^ b" by simp_all
    then show "a = b" by (rule distance_unique[OF sv top])
  qed
  have sub: "f ` {..n} \<subseteq> A"
  proof
    fix v assume "v \<in> f ` {..n}"
    then obtain j where j: "j \<le> n" "v = f j" by auto
    with f[of j] have r: "(v, t) \<in> E ^^ j" by simp
    show "v \<in> A"
    proof (cases j)
      case 0
      with r t show ?thesis by simp
    next
      case (Suc j')
      from r have "(v, t) \<in> E ^^ Suc j'" unfolding Suc .
      from relpow_Suc_D2[OF this] obtain y where "(v, y) \<in> E" by blast
      with dom show ?thesis by blast
    qed
  qed
  from card_inj_on_le[OF inj sub fin] show ?thesis by simp
qed

text \<open>And a chain of attached nodes below an object leaves no value within its length.\<close>

lemma chain_gives_None:
  assumes d: "distinct (map node_id ns)"
  shows "(x, i) \<in> attached ns r ^^ Suc k \<Longrightarrow> materialize k (hier_heap ns r) i = None"
proof (induction k arbitrary: i)
  case 0
  then have e: "(x, i) \<in> attached ns r" by simp
  show ?case
  proof (cases "i \<in> node_id ` set ns")
    case False
    then show ?thesis by (simp add: hier_heap_absent)
  next
    case True
    with hier_heap_present[OF d, of _ r] obtain l where
      H: "hier_heap ns r i = Some \<lparr>obj_label = l, obj_children = sort (kids r ns i)\<rparr>" by auto
    from e have "x \<in> set (kids r ns i)" by (simp add: set_kids_attached)
    then have "sort (kids r ns i) \<noteq> []" by (auto simp: sort_eq_Nil)
    with H show ?thesis by simp
  qed
next
  case (Suc k)
  from Suc.prems obtain c where c: "(x, c) \<in> attached ns r ^^ Suc k" "(c, i) \<in> attached ns r"
    by (rule relpow_Suc_E)
  show ?case
  proof (cases "i \<in> node_id ` set ns")
    case False
    then show ?thesis by (simp add: hier_heap_absent)
  next
    case True
    with hier_heap_present[OF d, of _ r] obtain l where
      H: "hier_heap ns r i = Some \<lparr>obj_label = l, obj_children = sort (kids r ns i)\<rparr>" by auto
    from c(2) have "c \<in> set (sort (kids r ns i))" by (simp add: set_kids_attached)
    from those_map_None[of c "sort (kids r ns i)" "materialize k (hier_heap ns r)", OF this Suc.IH[OF c(1)]]
    show ?thesis using H by simp
  qed
qed

lemma those_map_None_iff: "those (map f xs) = None \<longleftrightarrow> (\<exists>x\<in>set xs. f x = None)"
  by (induction xs) (auto split: option.splits)

text \<open>
  On a list with distinct ids, buildHierarchy throws the RangeError exactly when the
  nesting condition fails: when some node lies more than k parent links below a root.
\<close>

lemma buildHierarchy_None_iff:
  assumes d: "distinct (map node_id ns)"
  shows "buildHierarchy k ns r = None \<longleftrightarrow> \<not> nests_within k ns r"
proof (cases "ns = []")
  case True
  then show ?thesis by (simp add: buildHierarchy_def nests_within_def)
next
  case False
  let ?f = "materialize k (hier_heap ns r)"
  let ?ts = "map node_id (filter (\<lambda>n. parent_id n = r) ns)"
  have "buildHierarchy k ns r = None \<longleftrightarrow> (\<exists>t\<in>set ?ts. ?f t = None)"
    using buildHierarchy_hier_heap[OF False, of k r] by (simp only: those_map_None_iff)
  also have "\<dots> \<longleftrightarrow> (\<exists>n\<in>set ns. parent_id n = r \<and> (\<exists>x. (x, node_id n) \<in> attached ns r ^^ Suc k))"
  proof
    assume "\<exists>t\<in>set ?ts. ?f t = None"
    then obtain n where n: "n \<in> set ns" "parent_id n = r" "?f (node_id n) = None" by auto
    from n(1) have "node_id n \<in> node_id ` set ns" by simp
    from materialize_None_chain[OF d this n(3)] n(1,2)
    show "\<exists>n\<in>set ns. parent_id n = r \<and> (\<exists>x. (x, node_id n) \<in> attached ns r ^^ Suc k)" by blast
  next
    assume "\<exists>n\<in>set ns. parent_id n = r \<and> (\<exists>x. (x, node_id n) \<in> attached ns r ^^ Suc k)"
    then obtain n x where n: "n \<in> set ns" "parent_id n = r" "(x, node_id n) \<in> attached ns r ^^ Suc k"
      by blast
    from chain_gives_None[OF d n(3)] n(1,2) show "\<exists>t\<in>set ?ts. ?f t = None" by auto
  qed
  finally show ?thesis by (simp add: nests_within_def)
qed

text \<open>
  On a list with distinct ids the objects below a root form a tree with fewer levels
  than the list has nodes: a stack that takes as many nested calls as the list is long
  meets the nesting condition.
\<close>

lemma nests_within_long_stack:
  assumes d: "distinct (map node_id ns)" and k: "length ns \<le> k"
  shows "nests_within k ns r"
  unfolding nests_within_def
proof
  let ?E = "attached ns r"
  assume "\<exists>n\<in>set ns. parent_id n = r \<and> (\<exists>x. (x, node_id n) \<in> ?E ^^ Suc k)"
  then obtain n x where n: "n \<in> set ns" "parent_id n = r" and chain: "(x, node_id n) \<in> ?E ^^ Suc k"
    by blast
  have sv: "single_valued ?E"
    unfolding attached_def by (rule parent_rel_single_valued) (simp add: distinct_map_filter[OF d])
  have dom: "\<forall>c i. (c, i) \<in> ?E \<longrightarrow> c \<in> node_id ` set ns" by (auto simp: attached_def parent_rel_iff)
  have ids: "card (node_id ` set ns) = length ns" using distinct_card[OF d] by simp
  have t: "node_id n \<in> node_id ` set ns" using n(1) by simp
  have top: "\<forall>y. (node_id n, y) \<notin> ?E"
  proof (intro allI notI)
    fix y assume "(node_id n, y) \<in> ?E"
    then obtain n' where "n' \<in> set ns" "parent_id n' \<noteq> r" "node_id n' = node_id n"
      by (auto simp: attached_def parent_rel_iff)
    with node_id_inj[OF d this(1) n(1)] n(2) show False by simp
  qed
  from chain_bound[OF sv top dom t _ chain] ids k show False by simp
qed

text \<open>A node that lies more than k links below a root breaks the nesting condition.\<close>

lemma deep_node_overflows:
  "n \<in> set ns \<Longrightarrow> parent_id n = r \<Longrightarrow> (x, node_id n) \<in> attached ns r ^^ Suc k
     \<Longrightarrow> \<not> nests_within k ns r"
  unfolding nests_within_def by blast

section \<open>Order of the input\<close>

lemma sort_mset_eq: "mset xs = mset ys \<Longrightarrow> sort xs = sort (ys :: int list)"
  by (rule properties_for_sort) simp_all

lemma kids_mset: "mset ns' = mset ns \<Longrightarrow> mset (kids r ns' i) = mset (kids r ns i)"
  by (simp add: kids_def)

lemma hier_heap_permuted:
  assumes d: "distinct (map node_id ns)" and p: "mset ns' = mset ns"
  shows "hier_heap ns' r = hier_heap ns r"
proof (rule ext)
  fix i
  from p have s: "set ns' = set ns" by (rule mset_eq_setD)
  from p have "mset (map node_id ns') = mset (map node_id ns)" by simp
  with d have d': "distinct (map node_id ns')" by (metis mset_eq_imp_distinct_iff)
  show "hier_heap ns' r i = hier_heap ns r i"
  proof (cases "i \<in> node_id ` set ns")
    case False
    with s show ?thesis by (simp add: hier_heap_absent)
  next
    case True
    then obtain n where n: "n \<in> set ns" "i = node_id n" by auto
    with s have n': "n \<in> set ns'" by simp
    show ?thesis
      unfolding n(2) hier_heap_present[OF d n(1)] hier_heap_present[OF d' n']
      using sort_mset_eq[OF kids_mset[OF p]] by simp
  qed
qed

lemma those_map_mset:
  assumes "mset xs = mset ys"
  shows "map_option mset (those (map f xs)) = map_option mset (those (map f ys))"
proof (cases "\<forall>x\<in>set xs. f x \<noteq> None")
  case True
  moreover from assms have s: "set xs = set ys" by (rule mset_eq_setD)
  ultimately have "\<forall>x\<in>set ys. f x \<noteq> None" by simp
  from those_map_Some[OF True] those_map_Some[OF this] assms show ?thesis
    by simp
next
  case False
  then obtain x where x: "x \<in> set xs" "f x = None" by auto
  moreover from assms have "set xs = set ys" by (rule mset_eq_setD)
  ultimately have "x \<in> set ys" by simp
  from those_map_None[of x xs f, OF x] those_map_None[of x ys f, OF this x(2)] show ?thesis by simp
qed

lemma those_map_Some_iff:
  "those (map f xs) = Some ys \<longleftrightarrow> (\<forall>x\<in>set xs. f x \<noteq> None) \<and> ys = map (\<lambda>x. the (f x)) xs"
  by (induction xs arbitrary: ys) (auto split: option.splits)

text \<open>A tree read off a sorted heap has the id it was read at, and ascending children.\<close>

lemma materialize_ascending:
  "materialize k (sort_all h) i = Some t \<Longrightarrow> tn_id t = i \<and> ascending t"
proof (induction k arbitrary: i t)
  case 0
  then show ?case by (auto split: option.splits if_splits)
next
  case (Suc k)
  from Suc.prems obtain obj ts where
    o: "sort_all h i = Some obj" and ts: "those (map (materialize k (sort_all h)) (obj_children obj)) = Some ts"
    and t: "t = TreeNode i (obj_label obj) ts"
    by (auto split: option.splits)
  from o have srt: "sorted (obj_children obj)" by (auto simp: sort_all_def)
  from ts have all: "\<forall>c\<in>set (obj_children obj). materialize k (sort_all h) c \<noteq> None"
    and tsm: "ts = map (\<lambda>c. the (materialize k (sort_all h) c)) (obj_children obj)"
    by (simp_all add: those_map_Some_iff)
  have each: "tn_id (the (materialize k (sort_all h) c)) = c \<and> ascending (the (materialize k (sort_all h) c))"
    if "c \<in> set (obj_children obj)" for c
  proof -
    from all that obtain u where "materialize k (sort_all h) c = Some u" by auto
    with Suc.IH[OF this] show ?thesis by simp
  qed
  have "map tn_id ts = obj_children obj" unfolding tsm using each by (simp add: map_idI)
  moreover have "\<forall>u\<in>set ts. ascending u" unfolding tsm using each by auto
  ultimately show ?case using srt t by simp
qed


lemma buildHierarchy_roots_ascending:
  assumes "buildHierarchy k ns r = Some F"
  shows "map tn_id F = map node_id (filter (\<lambda>n. parent_id n = r) ns) \<and> (\<forall>t\<in>set F. ascending t)"
proof (cases "ns = []")
  case True
  with assms show ?thesis by (simp add: buildHierarchy_def)
next
  case False
  let ?ts = "map node_id (filter (\<lambda>n. parent_id n = r) ns)"
  let ?f = "materialize k (hier_heap ns r)"
  from assms buildHierarchy_hier_heap[OF False, of k r] have "those (map ?f ?ts) = Some F" by simp
  then have all: "\<forall>i\<in>set ?ts. ?f i \<noteq> None" and F: "F = map (\<lambda>i. the (?f i)) ?ts"
    by (simp_all add: those_map_Some_iff)
  have each: "tn_id (the (?f i)) = i \<and> ascending (the (?f i))" if "i \<in> set ?ts" for i
  proof -
    from all that obtain u where "?f i = Some u" by auto
    with materialize_ascending[of k _ i u] show ?thesis by (simp add: hier_heap_def)
  qed
  have "map tn_id F = ?ts" unfolding F using each by (simp add: map_idI)
  moreover have "\<forall>t\<in>set F. ascending t" unfolding F using each by auto
  ultimately show ?thesis by simp
qed

text \<open>
  C4 as it stands fails: two roots in the two orders give the two trees in the two
  orders. Roots have no children, so nothing nests and the stack plays no part.
\<close>

theorem root_order_counterexample:
  "mset [\<lparr>node_id = 2, label = ''b'', parent_id = None\<rparr>, \<lparr>node_id = 1, label = ''a'', parent_id = None\<rparr>]
     = mset [\<lparr>node_id = 1, label = ''a'', parent_id = None\<rparr>, \<lparr>node_id = 2, label = ''b'', parent_id = None\<rparr>]
   \<and> buildHierarchy 1000 [\<lparr>node_id = 1, label = ''a'', parent_id = None\<rparr>,
                          \<lparr>node_id = 2, label = ''b'', parent_id = None\<rparr>] None
       = Some [TreeNode 1 ''a'' [], TreeNode 2 ''b'' []]
   \<and> buildHierarchy 1000 [\<lparr>node_id = 2, label = ''b'', parent_id = None\<rparr>,
                          \<lparr>node_id = 1, label = ''a'', parent_id = None\<rparr>] None
       = Some [TreeNode 2 ''b'' [], TreeNode 1 ''a'' []]"
proof -
  have "buildHierarchy 1000 [\<lparr>node_id = 1, label = ''a'', parent_id = None\<rparr>,
                          \<lparr>node_id = 2, label = ''b'', parent_id = None\<rparr>] None
       = Some [TreeNode 1 ''a'' [], TreeNode 2 ''b'' []]" by code_simp
  moreover have "buildHierarchy 1000 [\<lparr>node_id = 2, label = ''b'', parent_id = None\<rparr>,
                          \<lparr>node_id = 1, label = ''a'', parent_id = None\<rparr>] None
       = Some [TreeNode 2 ''b'' [], TreeNode 1 ''a'' []]" by code_simp
  ultimately show ?thesis by simp
qed

text \<open>
  The ids of the list have to be distinct, as the ids of a table are: of two nodes with
  one id only the later object stays in nodeMap, and it is pushed once for each of them.
\<close>

lemma shared_id_keeps_later_label:
  "buildHierarchy 1000 [\<lparr>node_id = 1, label = ''a'', parent_id = None\<rparr>,
                        \<lparr>node_id = 1, label = ''b'', parent_id = None\<rparr>] None
     = Some [TreeNode 1 ''b'' [], TreeNode 1 ''b'' []]"
  by code_simp

text \<open>On lists with distinct ids the outcome depends on the order of the roots alone.\<close>

lemma buildHierarchy_permuted:
  assumes "distinct (map node_id ns)" and "mset ns' = mset ns"
  shows "map_option mset (buildHierarchy k ns' r) = map_option mset (buildHierarchy k ns r)
       \<and> (filter (\<lambda>n. parent_id n = r) ns' = filter (\<lambda>n. parent_id n = r) ns
            \<longrightarrow> buildHierarchy k ns' r = buildHierarchy k ns r)"
proof (cases "ns = []")
  case True
  with assms(2) have "ns' = []" by simp
  with True show ?thesis by (simp add: buildHierarchy_def)
next
  case False
  with assms(2) have ne': "ns' \<noteq> []" by auto
  let ?f = "materialize k (hier_heap ns r)"
  let ?ts = "map node_id (filter (\<lambda>n. parent_id n = r) ns)"
  let ?ts' = "map node_id (filter (\<lambda>n. parent_id n = r) ns')"
  have b: "buildHierarchy k ns r = those (map ?f ?ts)" by (rule buildHierarchy_hier_heap[OF False])
  have b': "buildHierarchy k ns' r = those (map ?f ?ts')"
    using buildHierarchy_hier_heap[OF ne', of k r] by (simp only: hier_heap_permuted[OF assms])
  have "mset ?ts' = mset ?ts" using assms(2) by simp
  from those_map_mset[OF this, of ?f]
  have one: "map_option mset (buildHierarchy k ns' r) = map_option mset (buildHierarchy k ns r)"
    unfolding b b' .
  have two: "buildHierarchy k ns' r = buildHierarchy k ns r"
    if "filter (\<lambda>n. parent_id n = r) ns' = filter (\<lambda>n. parent_id n = r) ns"
  proof -
    from that have "?ts' = ?ts" by (rule arg_cong)
    then show ?thesis unfolding b b' by (rule arg_cong)
  qed
  from one two show ?thesis by blast
qed

text \<open>
  C4, amended: for a node list ns with distinct ids, any permutation ns' of it and a
  stack that takes k nested calls of sortChildrenRecursively. If no node of ns lies more
  than k parent links below a root (the nesting condition), buildHierarchy returns on
  both lists, the two forests hold the same trees, and they are the same sequence when
  the roots stand in the same order in both lists; the roots of a forest follow the
  order of the input, and the children arrays ascend by id at every level. If some node
  lies deeper, buildHierarchy throws the RangeError on both lists.
\<close>

theorem hierarchy_of_permuted_list:
  assumes "distinct (map node_id ns)" and "mset ns' = mset ns"
  shows "(nests_within k ns r \<longrightarrow>
           (\<exists>F F'. buildHierarchy k ns r = Some F \<and> buildHierarchy k ns' r = Some F'
              \<and> mset F' = mset F
              \<and> (filter (\<lambda>n. parent_id n = r) ns' = filter (\<lambda>n. parent_id n = r) ns \<longrightarrow> F' = F)
              \<and> map tn_id F = map node_id (filter (\<lambda>n. parent_id n = r) ns)
              \<and> map tn_id F' = map node_id (filter (\<lambda>n. parent_id n = r) ns')
              \<and> (\<forall>t\<in>set F. ascending t) \<and> (\<forall>t\<in>set F'. ascending t)))
       \<and> (\<not> nests_within k ns r \<longrightarrow>
            buildHierarchy k ns r = None \<and> buildHierarchy k ns' r = None)"
proof -
  note perm = buildHierarchy_permuted[OF assms, of k r]
  note iff = buildHierarchy_None_iff[OF assms(1), of k r]
  have deep: "buildHierarchy k ns r = None \<and> buildHierarchy k ns' r = None" if "\<not> nests_within k ns r"
  proof -
    from that iff have n: "buildHierarchy k ns r = None" by simp
    with perm have "map_option mset (buildHierarchy k ns' r) = None" by simp
    with n show ?thesis by simp
  qed
  have flat: "\<exists>F F'. buildHierarchy k ns r = Some F \<and> buildHierarchy k ns' r = Some F'
              \<and> mset F' = mset F
              \<and> (filter (\<lambda>n. parent_id n = r) ns' = filter (\<lambda>n. parent_id n = r) ns \<longrightarrow> F' = F)
              \<and> map tn_id F = map node_id (filter (\<lambda>n. parent_id n = r) ns)
              \<and> map tn_id F' = map node_id (filter (\<lambda>n. parent_id n = r) ns')
              \<and> (\<forall>t\<in>set F. ascending t) \<and> (\<forall>t\<in>set F'. ascending t)"
    if "nests_within k ns r"
  proof -
    from that iff obtain F where F: "buildHierarchy k ns r = Some F" by auto
    with perm obtain F' where F': "buildHierarchy k ns' r = Some F'" and ms: "mset F' = mset F"
      by (cases "buildHierarchy k ns' r") auto
    from perm F F' have ord: "filter (\<lambda>n. parent_id n = r) ns' = filter (\<lambda>n. parent_id n = r) ns \<longrightarrow> F' = F"
      by simp
    from F F' ms ord buildHierarchy_roots_ascending[OF F] buildHierarchy_roots_ascending[OF F']
    show ?thesis by blast
  qed
  from deep flat show ?thesis by blast
qed

theorem hierarchy_of_permuted_list_witness:
  "buildHierarchy 3 [\<lparr>node_id = 2, label = ''bear'', parent_id = Some 1\<rparr>,
                     \<lparr>node_id = 1, label = ''root'', parent_id = None\<rparr>,
                     \<lparr>node_id = 4, label = ''frog'', parent_id = Some 1\<rparr>] None
     = buildHierarchy 3 [\<lparr>node_id = 1, label = ''root'', parent_id = None\<rparr>,
                         \<lparr>node_id = 4, label = ''frog'', parent_id = Some 1\<rparr>,
                         \<lparr>node_id = 2, label = ''bear'', parent_id = Some 1\<rparr>] None
   \<and> buildHierarchy 3 [\<lparr>node_id = 1, label = ''root'', parent_id = None\<rparr>,
                         \<lparr>node_id = 4, label = ''frog'', parent_id = Some 1\<rparr>,
                         \<lparr>node_id = 2, label = ''bear'', parent_id = Some 1\<rparr>] None
     = Some [TreeNode 1 ''root'' [TreeNode 2 ''bear'' [], TreeNode 4 ''frog'' []]]
   \<and> buildHierarchy 0 [\<lparr>node_id = 2, label = ''bear'', parent_id = Some 1\<rparr>,
                         \<lparr>node_id = 1, label = ''root'', parent_id = None\<rparr>,
                         \<lparr>node_id = 4, label = ''frog'', parent_id = Some 1\<rparr>] None = None"
proof -
  let ?ns = "[\<lparr>node_id = 1, label = ''root'', parent_id = None\<rparr>,
              \<lparr>node_id = 4, label = ''frog'', parent_id = Some 1\<rparr>,
              \<lparr>node_id = 2, label = ''bear'', parent_id = Some 1\<rparr>]"
  let ?ns' = "[\<lparr>node_id = 2, label = ''bear'', parent_id = Some 1\<rparr>,
               \<lparr>node_id = 1, label = ''root'', parent_id = None\<rparr>,
               \<lparr>node_id = 4, label = ''frog'', parent_id = Some 1\<rparr>]"
  have d: "distinct (map node_id ?ns)" by simp
  have p: "mset ?ns' = mset ?ns" by simp
  have f: "filter (\<lambda>n. parent_id n = None) ?ns' = filter (\<lambda>n. parent_id n = None) ?ns" by simp
  have v: "buildHierarchy 3 ?ns None = Some [TreeNode 1 ''root'' [TreeNode 2 ''bear'' [], TreeNode 4 ''frog'' []]]"
    by code_simp
  have shallow: "nests_within 3 ?ns None" by (rule nests_within_long_stack[OF d]) simp
  have "(4, node_id \<lparr>node_id = 1, label = ''root'', parent_id = None\<rparr>) \<in> attached ?ns None ^^ Suc 0"
    by (simp add: attached_def parent_rel_def)
  then have deep: "\<not> nests_within 0 ?ns None" by (rule deep_node_overflows[rotated 2]) simp_all
  from hierarchy_of_permuted_list[OF d p, of 3 None] shallow obtain F F' where
    "buildHierarchy 3 ?ns None = Some F" "buildHierarchy 3 ?ns' None = Some F'"
    "filter (\<lambda>n. parent_id n = None) ?ns' = filter (\<lambda>n. parent_id n = None) ?ns \<longrightarrow> F' = F"
    by blast
  with f v have "buildHierarchy 3 ?ns' None = buildHierarchy 3 ?ns None" by simp
  moreover from hierarchy_of_permuted_list[OF d p, of 0 None] deep
  have "buildHierarchy 0 ?ns' None = None" by blast
  ultimately show ?thesis using v by simp
qed

section \<open>Counting the nodes of the forest\<close>

lemma set_kids: "set (kids None ns i) = {c. (c, i) \<in> parent_rel ns}"
  by (auto simp: kids_def parent_rel_iff)

lemma distinct_kids: "distinct (map node_id ns) \<Longrightarrow> distinct (kids r ns i)"
  by (simp add: kids_def distinct_map_filter)

lemma below_self: "i \<in> below ns i"
  by (simp add: below_def)

lemma below_unfold: "below ns i = insert i (\<Union>c\<in>{c. (c, i) \<in> parent_rel ns}. below ns c)"
proof (rule set_eqI)
  fix x
  show "x \<in> below ns i \<longleftrightarrow> x \<in> insert i (\<Union>c\<in>{c. (c, i) \<in> parent_rel ns}. below ns c)"
  proof
    assume "x \<in> below ns i"
    then have "(x, i) \<in> (parent_rel ns)\<^sup>*" by (simp add: below_def)
    then show "x \<in> insert i (\<Union>c\<in>{c. (c, i) \<in> parent_rel ns}. below ns c)"
      by (cases rule: rtranclE) (auto simp: below_def)
  next
    assume "x \<in> insert i (\<Union>c\<in>{c. (c, i) \<in> parent_rel ns}. below ns c)"
    then show "x \<in> below ns i"
      by (auto simp: below_def intro: rtrancl_into_rtrancl)
  qed
qed

lemma below_subset: "below ns i \<subseteq> insert i (node_id ` set ns)"
proof
  fix x assume "x \<in> below ns i"
  then have "(x, i) \<in> (parent_rel ns)\<^sup>*" by (simp add: below_def)
  then show "x \<in> insert i (node_id ` set ns)"
  proof (cases rule: converse_rtranclE)
    case base
    then show ?thesis by simp
  next
    case (step y)
    then show ?thesis by (auto simp: parent_rel_iff)
  qed
qed

lemma finite_below: "finite (below ns i)"
  by (rule finite_subset[OF below_subset]) simp

lemma no_way_back:
  assumes "acyclic (parent_rel ns)" and "(c, i) \<in> parent_rel ns"
  shows "(i, c) \<notin> (parent_rel ns)\<^sup>*"
proof
  assume "(i, c) \<in> (parent_rel ns)\<^sup>*"
  from this assms(2) have "(i, i) \<in> (parent_rel ns)\<^sup>+" by (rule rtrancl_into_trancl1)
  with assms(1) show False by (simp add: acyclic_def)
qed

lemma siblings_apart:
  assumes d: "distinct (map node_id ns)" and a: "acyclic (parent_rel ns)"
    and c1: "(c1, i) \<in> parent_rel ns" and c2: "(c2, i) \<in> parent_rel ns" and ne: "c1 \<noteq> c2"
  shows "below ns c1 \<inter> below ns c2 = {}"
proof -
  have sv: "single_valued (parent_rel ns)" by (rule parent_rel_single_valued[OF d])
  have one_way: False
    if "(a, b) \<in> (parent_rel ns)\<^sup>*" "a \<noteq> b" "(a, i) \<in> parent_rel ns" "(b, i) \<in> parent_rel ns" for a b
    using that(1)
  proof (cases rule: converse_rtranclE)
    case base
    with that(2) show False by simp
  next
    case (step z)
    from sv step(1) that(3) have "z = i" by (auto simp: single_valued_def)
    with step(2) no_way_back[OF a that(4)] show False by simp
  qed
  show ?thesis
  proof (rule ccontr)
    assume "below ns c1 \<inter> below ns c2 \<noteq> {}"
    then obtain x where "(x, c1) \<in> (parent_rel ns)\<^sup>*" "(x, c2) \<in> (parent_rel ns)\<^sup>*"
      by (auto simp: below_def)
    from single_valued_confluent[OF sv this]
    show False using one_way[of c1 c2] one_way[of c2 c1] c1 c2 ne by auto
  qed
qed

text \<open>The ids below i are i and, apart from each other, the ids below each child of i.\<close>

lemma card_below:
  assumes d: "distinct (map node_id ns)" and a: "acyclic (parent_rel ns)"
  shows "card (below ns i) = Suc (\<Sum>c\<in>{c. (c, i) \<in> parent_rel ns}. card (below ns c))"
proof -
  let ?C = "{c. (c, i) \<in> parent_rel ns}"
  have fC: "finite ?C"
    by (rule finite_subset[of _ "fst ` parent_rel ns"]) (auto simp: finite_parent_rel intro: rev_image_eqI)
  have notin: "i \<notin> (\<Union>c\<in>?C. below ns c)"
    using no_way_back[OF a] by (auto simp: below_def)
  have fin: "\<forall>c\<in>?C. finite (below ns c)" by (simp add: finite_below)
  have apart: "\<forall>c\<in>?C. \<forall>j\<in>?C. c \<noteq> j \<longrightarrow> below ns c \<inter> below ns j = {}"
    using siblings_apart[OF d a] by blast
  have "card (\<Union>c\<in>?C. below ns c) = (\<Sum>c\<in>?C. card (below ns c))"
    by (rule card_UN_disjoint[OF fC fin apart])
  moreover have "finite (\<Union>c\<in>?C. below ns c)" using fC by (simp add: finite_below)
  then have "card (insert i (\<Union>c\<in>?C. below ns c)) = Suc (card (\<Union>c\<in>?C. below ns c))"
    using notin by (rule card_insert_disjoint)
  moreover have "card (below ns i) = card (insert i (\<Union>c\<in>?C. below ns c))"
    by (rule arg_cong[OF below_unfold])
  ultimately show ?thesis by simp
qed

lemma hier_heap_node:
  assumes "distinct (map node_id ns)" and "i \<in> node_id ` set ns"
  shows "\<exists>l. hier_heap ns None i = Some \<lparr>obj_label = l, obj_children = sort (kids None ns i)\<rparr>"
  using assms hier_heap_present[OF assms(1)] by auto

text \<open>
  Below a node the heap is a tree: a value read at the node has one tree node for each
  node below it.
\<close>

lemma materialize_counts:
  assumes d: "distinct (map node_id ns)" and a: "acyclic (parent_rel ns)"
  shows "i \<in> node_id ` set ns \<Longrightarrow> materialize k (hier_heap ns None) i = Some t \<Longrightarrow>
         countNodesInTree t = card (below ns i)"
  using wf_towards_leaves[OF a]
proof (induction i arbitrary: k t rule: wf_induct_rule)
  case (less i)
  let ?H = "hier_heap ns None"
  let ?cs = "sort (kids None ns i)"
  from hier_heap_node[OF d less.prems(1)] obtain l where
    H: "?H i = Some \<lparr>obj_label = l, obj_children = ?cs\<rparr>" by blast
  have set_cs: "set ?cs = {c. (c, i) \<in> parent_rel ns}" by (simp add: set_kids)
  have dist_cs: "distinct ?cs" by (simp add: distinct_kids[OF d])
  have card_i: "card (below ns i) = Suc (\<Sum>c\<in>set ?cs. card (below ns c))"
    unfolding set_cs by (rule card_below[OF d a])
  have sum_cs: "(\<Sum>c\<in>set ?cs. card (below ns c)) = sum_list (map (\<lambda>c. card (below ns c)) ?cs)"
    by (rule sum_list_distinct_conv_sum_set[OF dist_cs, symmetric])
  show ?case
  proof (cases k)
    case 0
    with less.prems(2) H have "?cs = [] \<and> t = TreeNode i l []" by (simp split: if_splits)
    then have "set ?cs = {}" and "t = TreeNode i l []" by simp_all
    with card_i show ?thesis by simp
  next
    case (Suc k')
    with less.prems(2) H obtain ts where
      ts: "those (map (materialize k' ?H) ?cs) = Some ts" and t: "t = TreeNode i l ts" by auto
    from ts have all: "\<forall>c\<in>set ?cs. materialize k' ?H c \<noteq> None"
      and tsdef: "ts = map (\<lambda>c. the (materialize k' ?H c)) ?cs"
      unfolding those_map_Some_iff by blast+
    have count: "countNodesInTree (the (materialize k' ?H c)) = card (below ns c)"
      if "c \<in> set ?cs" for c
    proof -
      from that set_cs have r: "(c, i) \<in> parent_rel ns" by simp
      then have cin: "c \<in> node_id ` set ns" by (auto simp: parent_rel_iff)
      from all that obtain u where u: "materialize k' ?H c = Some u" by auto
      from less.IH[OF r cin u] u show ?thesis by simp
    qed
    have mapeq: "map countNodesInTree ts = map (\<lambda>c. card (below ns c)) ?cs"
      unfolding tsdef using count by simp
    have "countNodesInTree (TreeNode i l ts) = Suc (sum_list (map countNodesInTree ts))" by simp
    also have "\<dots> = Suc (sum_list (map (\<lambda>c. card (below ns c)) ?cs))" by (simp only: mapeq)
    also have "\<dots> = card (below ns i)" by (simp only: card_i sum_cs)
    finally show ?thesis using t by simp
  qed
qed

lemma roots_apart:
  assumes d: "distinct (map node_id ns)"
    and r1: "n1 \<in> set ns" "parent_id n1 = None" and r2: "n2 \<in> set ns" "parent_id n2 = None"
    and ne: "node_id n1 \<noteq> node_id n2"
  shows "below ns (node_id n1) \<inter> below ns (node_id n2) = {}"
proof -
  have sv: "single_valued (parent_rel ns)" by (rule parent_rel_single_valued[OF d])
  have stuck: "b = node_id n" if "(node_id n, b) \<in> (parent_rel ns)\<^sup>*" "n \<in> set ns" "parent_id n = None" for n b
    using that(1)
  proof (cases rule: converse_rtranclE)
    case base
    then show ?thesis by simp
  next
    case (step z)
    then obtain n' where "n' \<in> set ns" "node_id n' = node_id n" "parent_id n' = Some z"
      by (auto simp: parent_rel_iff)
    with node_id_inj[OF d this(1) that(2)] that(3) show ?thesis by simp
  qed
  show ?thesis
  proof (rule ccontr)
    assume "below ns (node_id n1) \<inter> below ns (node_id n2) \<noteq> {}"
    then obtain x where "(x, node_id n1) \<in> (parent_rel ns)\<^sup>*" "(x, node_id n2) \<in> (parent_rel ns)\<^sup>*"
      by (auto simp: below_def)
    from single_valued_confluent[OF sv this]
    have "(node_id n1, node_id n2) \<in> (parent_rel ns)\<^sup>* \<or> (node_id n2, node_id n1) \<in> (parent_rel ns)\<^sup>*" .
    then show False
    proof
      assume "(node_id n1, node_id n2) \<in> (parent_rel ns)\<^sup>*"
      from stuck[OF this r1] ne show False by simp
    next
      assume "(node_id n2, node_id n1) \<in> (parent_rel ns)\<^sup>*"
      from stuck[OF this r2] ne show False by simp
    qed
  qed
qed

lemma reaches_root:
  assumes a: "acyclic (parent_rel ns)" and p: "parents_present ns"
  shows "n \<in> set ns \<Longrightarrow> node_id n = i \<Longrightarrow>
         \<exists>r\<in>set ns. parent_id r = None \<and> i \<in> below ns (node_id r)"
  using wf_towards_root[OF a]
proof (induction i arbitrary: n rule: wf_induct_rule)
  case (less i)
  show ?case
  proof (cases "parent_id n")
    case None
    with less.prems below_self[of i ns] show ?thesis by auto
  next
    case (Some q)
    with less.prems(1) p have "q \<in> node_id ` set ns"
      by (auto simp: parents_present_def list_all_iff split: option.splits)
    then obtain m where m: "m \<in> set ns" "node_id m = q" by auto
    from less.prems Some have e: "(i, q) \<in> parent_rel ns" by (auto simp: parent_rel_iff)
    then have "(q, i) \<in> (parent_rel ns)\<inverse>" by simp
    from less.IH[OF this m] obtain r where r: "r \<in> set ns" "parent_id r = None" "q \<in> below ns (node_id r)"
      by blast
    from r(3) e have "i \<in> below ns (node_id r)"
      by (auto simp: below_def intro: converse_rtrancl_into_rtrancl)
    with r(1,2) show ?thesis by blast
  qed
qed


text \<open>
  C5 as it stands fails: a single node that is its own parent has its parent in the
  list, and the forest is empty. No node is attached below a root, so nothing nests
  and the stack plays no part.
\<close>

theorem self_parent_counterexample:
  "parents_present [\<lparr>node_id = 1, label = ''a'', parent_id = Some 1\<rparr>]
   \<and> buildHierarchy 1000 [\<lparr>node_id = 1, label = ''a'', parent_id = Some 1\<rparr>] None = Some []
   \<and> sum_list (map countNodesInTree ([] :: TreeNode list))
       \<noteq> length [\<lparr>node_id = 1, label = ''a'', parent_id = Some 1\<rparr>]"
proof -
  have "buildHierarchy 1000 [\<lparr>node_id = 1, label = ''a'', parent_id = Some 1\<rparr>] None = Some []"
    by code_simp
  then show ?thesis by (simp add: parents_present_def)
qed

text \<open>
  Here too the ids have to be distinct: a root whose id stands twice in the list is
  pushed twice, with its children.
\<close>

lemma shared_id_counts_twice:
  "buildHierarchy 1000 [\<lparr>node_id = 1, label = ''a'', parent_id = None\<rparr>,
                        \<lparr>node_id = 1, label = ''b'', parent_id = None\<rparr>,
                        \<lparr>node_id = 2, label = ''c'', parent_id = Some 1\<rparr>] None
     = Some [TreeNode 1 ''b'' [TreeNode 2 ''c'' []], TreeNode 1 ''b'' [TreeNode 2 ''c'' []]]"
  by code_simp

text \<open>
  C5, amended: for every node list with distinct ids and acyclic parent pointers in which
  every parent_id that is not null is the id of a node of the list, and a stack that
  takes k nested calls of sortChildrenRecursively. If no node of the list lies more than
  k parent links below a root (the nesting condition), buildHierarchy with root parent
  null returns a forest, and the tree nodes of the forest, counted with
  countNodesInTree, are as many as the nodes of the list. If some node lies deeper,
  buildHierarchy throws the RangeError and there is no forest to count.
\<close>

theorem forest_counts_all_nodes:
  assumes d: "distinct (map node_id ns)" and p: "parents_present ns" and a: "acyclic (parent_rel ns)"
  shows "(nests_within k ns None \<longrightarrow>
           (\<exists>F. buildHierarchy k ns None = Some F \<and> sum_list (map countNodesInTree F) = length ns))
       \<and> (\<not> nests_within k ns None \<longrightarrow> buildHierarchy k ns None = None)"
proof -
  note iff = buildHierarchy_None_iff[OF d, of k None]
  have flat: "\<exists>F. buildHierarchy k ns None = Some F \<and> sum_list (map countNodesInTree F) = length ns"
    if n: "nests_within k ns None"
  proof (cases "ns = []")
    case True
    then show ?thesis by (simp add: buildHierarchy_def)
  next
    case False
    let ?H = "hier_heap ns None"
    let ?roots = "filter (\<lambda>n. parent_id n = None) ns"
    let ?ts = "map node_id ?roots"
    from n iff obtain F where b: "buildHierarchy k ns None = Some F" by auto
    with buildHierarchy_hier_heap[OF False, of k None]
    have "those (map (materialize k ?H) ?ts) = Some F" by simp
    then have all: "\<forall>r\<in>set ?ts. materialize k ?H r \<noteq> None"
      and Fdef: "F = map (\<lambda>r. the (materialize k ?H r)) ?ts"
      unfolding those_map_Some_iff by blast+
    have ids: "card (node_id ` set ns) = length ns"
      using distinct_card[OF d] by simp
    have in_ids: "r \<in> node_id ` set ns" if "r \<in> set ?ts" for r using that by auto
    have count: "countNodesInTree (the (materialize k ?H r)) = card (below ns r)" if "r \<in> set ?ts" for r
    proof -
      from all that obtain u where u: "materialize k ?H r = Some u" by auto
      from materialize_counts[OF d a in_ids[OF that] u] u show ?thesis by simp
    qed
    have dts: "distinct ?ts" using d by (simp add: distinct_map_filter)
    have apart: "\<forall>r\<in>set ?ts. \<forall>q\<in>set ?ts. r \<noteq> q \<longrightarrow> below ns r \<inter> below ns q = {}"
    proof (intro ballI impI)
      fix r q assume "r \<in> set ?ts" "q \<in> set ?ts" "r \<noteq> q"
      then obtain n1 n2 where "n1 \<in> set ns" "parent_id n1 = None" "r = node_id n1"
        "n2 \<in> set ns" "parent_id n2 = None" "q = node_id n2" by auto
      with roots_apart[OF d, of n1 n2] \<open>r \<noteq> q\<close> show "below ns r \<inter> below ns q = {}" by simp
    qed
    have cover: "(\<Union>r\<in>set ?ts. below ns r) = node_id ` set ns"
    proof (rule set_eqI, rule iffI)
      fix x assume "x \<in> (\<Union>r\<in>set ?ts. below ns r)"
      then obtain r where r: "r \<in> set ?ts" "x \<in> below ns r" by blast
      with below_subset[of ns r] in_ids[OF r(1)] show "x \<in> node_id ` set ns" by auto
    next
      fix x assume "x \<in> node_id ` set ns"
      then obtain n where n: "n \<in> set ns" "node_id n = x" by auto
      from reaches_root[OF a p n] obtain r where "r \<in> set ns" "parent_id r = None" "x \<in> below ns (node_id r)"
        by blast
      then show "x \<in> (\<Union>r\<in>set ?ts. below ns r)" by auto
    qed
    have mapeq: "map countNodesInTree F = map (\<lambda>r. card (below ns r)) ?ts"
      unfolding Fdef using count by simp
    have "sum_list (map countNodesInTree F) = sum_list (map (\<lambda>r. card (below ns r)) ?ts)"
      by (simp only: mapeq)
    also have "\<dots> = (\<Sum>r\<in>set ?ts. card (below ns r))"
      by (rule sum_list_distinct_conv_sum_set[OF dts])
    also have "\<dots> = card (\<Union>r\<in>set ?ts. below ns r)"
      by (rule card_UN_disjoint[symmetric]) (simp_all add: finite_below apart)
    also have "\<dots> = length ns" by (simp only: cover ids)
    finally show ?thesis using b by blast
  qed
  from flat iff show ?thesis by blast
qed

theorem forest_counts_all_nodes_witness:
  "(\<exists>F. buildHierarchy 4 (rows zoo) None = Some F \<and> sum_list (map countNodesInTree F) = 4)
   \<and> buildHierarchy (Suc 0) (rows zoo) None = None"
proof -
  have d: "distinct (map node_id (rows zoo))" by (simp add: zoo_def)
  have p: "parents_present (rows zoo)" by (simp add: parents_present_def zoo_def)
  have a: "acyclic (parent_rel (rows zoo))"
    by (rule acyclicI_order[where f = "\<lambda>x. x"]) (auto simp: parent_rel_def zoo_def)
  have l: "length (rows zoo) = 4" by (simp add: zoo_def)
  have shallow: "nests_within 4 (rows zoo) None"
    by (rule nests_within_long_stack[OF d]) (simp add: l)
  have e1: "(3, 2) \<in> attached (rows zoo) None" and e2: "(2, 1) \<in> attached (rows zoo) None"
    by (simp_all add: attached_def parent_rel_def zoo_def)
  have "(3, 1) \<in> attached (rows zoo) None ^^ Suc (Suc 0)"
    by (rule relpow_Suc_I[OF relpow_Suc_I[OF relpow_0_I e1] e2])
  then have "(3, node_id \<lparr>node_id = 1, label = ''root'', parent_id = None\<rparr>)
               \<in> attached (rows zoo) None ^^ Suc (Suc 0)" by simp
  then have deep: "\<not> nests_within (Suc 0) (rows zoo) None"
    by (rule deep_node_overflows[rotated 2]) (simp_all add: zoo_def)
  from forest_counts_all_nodes[OF d p a, of 4] shallow l
  have "\<exists>F. buildHierarchy 4 (rows zoo) None = Some F \<and> sum_list (map countNodesInTree F) = 4"
    by simp
  moreover from forest_counts_all_nodes[OF d p a, of "Suc 0"] deep
  have "buildHierarchy (Suc 0) (rows zoo) None = None" by blast
  ultimately show ?thesis by blast
qed


section \<open>Moving a node\<close>

lemma update_parent_count: "getNodeCount (update_parent s i p) = getNodeCount s"
  by (simp add: update_parent_def getNodeCount_def)

lemma apply_updates_count: "getNodeCount (apply_updates m ds s) = getNodeCount s"
  by (induction ds arbitrary: s) (simp_all add: apply_updates_def update_parent_count split: option.splits)

text \<open>Whatever a move does to the parent pointers, it neither adds nor removes a row.\<close>

lemma move_keeps_node_count:
  "svc_moveNodeAndSubtree s i p = Some (r, s') \<Longrightarrow> getNodeCount s' = getNodeCount s"
  by (auto simp: svc_moveNodeAndSubtree_def q_moveNodeAndSubtree_def Let_def
        apply_updates_count update_parent_count
        split: if_splits option.splits bool.splits sum.splits prod.splits)

text \<open>A stack that takes more nested calls gives the same trees.\<close>

lemma materialize_deeper:
  "materialize k h i = Some t \<Longrightarrow> materialize (Suc k) h i = Some t"
proof (induction k arbitrary: i t)
  case 0
  then show ?case by (auto split: option.splits if_splits)
next
  case (Suc k)
  from Suc.prems obtain obj ts where h: "h i = Some obj"
    and ts: "those (map (materialize k h) (obj_children obj)) = Some ts"
    and t: "t = TreeNode i (obj_label obj) ts"
    by (auto split: option.splits)
  from ts have all: "\<forall>c\<in>set (obj_children obj). materialize k h c \<noteq> None"
    and tsdef: "ts = map (\<lambda>c. the (materialize k h c)) (obj_children obj)"
    unfolding those_map_Some_iff by blast+
  have same: "materialize (Suc k) h c = materialize k h c" if "c \<in> set (obj_children obj)" for c
  proof -
    from all that obtain u where u: "materialize k h c = Some u" by auto
    from Suc.IH[OF u] u show ?thesis by simp
  qed
  have "map (materialize (Suc k) h) (obj_children obj) = map (materialize k h) (obj_children obj)"
    by (rule map_cong[OF refl same])
  with ts have "those (map (materialize (Suc k) h) (obj_children obj)) = Some ts" by (simp only:)
  with h t show ?case by (simp del: materialize.simps add: materialize.simps(2)[of "Suc k"])
qed

lemma materialize_deeper_add:
  "materialize k h i = Some t \<Longrightarrow> materialize (k + j) h i = Some t"
proof (induction j)
  case 0
  then show ?case by simp
next
  case (Suc j)
  from materialize_deeper[OF Suc.IH[OF Suc.prems]] show ?case by (simp del: materialize.simps)
qed

lemma buildHierarchy_deeper:
  assumes "buildHierarchy k ns r = Some F"
  shows "buildHierarchy (k + j) ns r = Some F"
proof (cases "ns = []")
  case True
  with assms show ?thesis by (simp add: buildHierarchy_def)
next
  case False
  let ?ts = "map node_id (filter (\<lambda>n. parent_id n = r) ns)"
  from assms buildHierarchy_hier_heap[OF False, of k r]
  have s: "those (map (materialize k (hier_heap ns r)) ?ts) = Some F" by simp
  then have all: "\<forall>c\<in>set ?ts. materialize k (hier_heap ns r) c \<noteq> None"
    unfolding those_map_Some_iff by blast
  have same: "materialize (k + j) (hier_heap ns r) c = materialize k (hier_heap ns r) c" if "c \<in> set ?ts" for c
  proof -
    from all that obtain u where u: "materialize k (hier_heap ns r) c = Some u" by auto
    from materialize_deeper_add[OF u] u show ?thesis by simp
  qed
  have "map (materialize (k + j) (hier_heap ns r)) ?ts = map (materialize k (hier_heap ns r)) ?ts"
    by (rule map_cong[OF refl same])
  with s have "those (map (materialize (k + j) (hier_heap ns r)) ?ts) = Some F" by (simp only:)
  with buildHierarchy_hier_heap[OF False, of "k + j" r] show ?thesis by (simp only:)
qed

lemma getAllTrees_deeper: "getAllTrees k s = Inr F \<Longrightarrow> getAllTrees (k + j) s = Inr F"
  by (auto simp: getAllTrees_def buildHierarchy_deeper split: option.splits)

text \<open>
  C1 (the code fails the claim): moving bear (2) under frog (4) in the four-node store
  also rewrites the parent of cat (3), bear's child, to frog; frog then has the two
  children bear and cat, and bear has none. This is the tree that getAllTrees returns
  on every stack that takes two nested calls or more.
\<close>

theorem move_rewrites_descendants:
  "svc_moveNodeAndSubtree zoo 2 (Some 4) =
     Some (Inr (Some \<lparr>node_id = 2, label = ''bear'', parent_id = Some 4\<rparr>),
           \<lparr>rows = [\<lparr>node_id = 1, label = ''root'', parent_id = None\<rparr>,
                    \<lparr>node_id = 2, label = ''bear'', parent_id = Some 4\<rparr>,
                    \<lparr>node_id = 3, label = ''cat'', parent_id = Some 4\<rparr>,
                    \<lparr>node_id = 4, label = ''frog'', parent_id = Some 1\<rparr>],
             sqlite_sequence = 4\<rparr>)
   \<and> map_option (\<lambda>r. getAllTrees (2 + j) (snd r)) (svc_moveNodeAndSubtree zoo 2 (Some 4)) =
     Some (Inr [TreeNode 1 ''root'' [TreeNode 4 ''frog'' [TreeNode 2 ''bear'' [], TreeNode 3 ''cat'' []]]])"
proof -
  let ?s' = "\<lparr>rows = [\<lparr>node_id = 1, label = ''root'', parent_id = None\<rparr>,
                    \<lparr>node_id = 2, label = ''bear'', parent_id = Some 4\<rparr>,
                    \<lparr>node_id = 3, label = ''cat'', parent_id = Some 4\<rparr>,
                    \<lparr>node_id = 4, label = ''frog'', parent_id = Some 1\<rparr>],
             sqlite_sequence = 4\<rparr>"
  have mv: "svc_moveNodeAndSubtree zoo 2 (Some 4) =
     Some (Inr (Some \<lparr>node_id = 2, label = ''bear'', parent_id = Some 4\<rparr>), ?s')"
    by code_simp
  have "getAllTrees 2 ?s' =
     Inr [TreeNode 1 ''root'' [TreeNode 4 ''frog'' [TreeNode 2 ''bear'' [], TreeNode 3 ''cat'' []]]]"
    by code_simp
  then have "getAllTrees (2 + j) ?s' =
     Inr [TreeNode 1 ''root'' [TreeNode 4 ''frog'' [TreeNode 2 ''bear'' [], TreeNode 3 ''cat'' []]]]"
    by (rule getAllTrees_deeper)
  with mv show ?thesis by simp
qed

text \<open>
  C2 (the code fails the claim): with a source id that no row has, the service reports
  the self-move when the new parent is the same id, and otherwise fails on reading
  \<^verbatim>\<open>parent_id\<close> of null; the source-not-found failure of the query layer is never
  reached.
\<close>

theorem move_missing_source:
  "svc_moveNodeAndSubtree empty_store 5 (Some 5) = Some (Inl (FailedToMove OwnChild), empty_store)
   \<and> svc_moveNodeAndSubtree empty_store 5 (Some 6) = Some (Inl (FailedToMove TypeError), empty_store)
   \<and> svc_moveNodeAndSubtree empty_store 5 None = Some (Inl (FailedToMove TypeError), empty_store)
   \<and> q_moveNodeAndSubtree empty_store 5 (Some 6) =
       Some (Inl (FailedToMove (SourceNotFound 5)), empty_store)"
  by code_simp

end
